theory Spec2Isabelle
  imports
    Complex_Main
    "HOL-Library.Log_Nat"
    "HOL-Library.Char_ord"
    "HOL-Library.List_Lexorder"
    "HOL-Library.Multiset"
begin

section \<open>The arithmetic of \<^verbatim>\<open>double\<close>\<close>

text \<open>
  The program computes with \<^verbatim>\<open>double\<close>. A finite double is the real number it denotes, and
  every arithmetic operation of the program is the exact operation followed by one rounding.
  The rounding is a parameter \<open>rnd\<close> of the model, so that one set of definitions covers

  \<^item> the machine: \<open>rnd = binary64\<close>, IEEE 754 double precision, round to nearest, ties to even;
  \<^item> exact arithmetic: \<open>rnd = exact\<close>, no rounding at all.

  Comparison, negation, \<^verbatim>\<open>fabs\<close> and \<^verbatim>\<open>std::min\<close> are exact on doubles and need no rounding.
  Infinities, NaN and the sign of zero are outside the model. \<open>binary64\<close> does not overflow:
  where the machine's result would be infinite, it gives a real beyond the largest double.
  What is proved of the model is therefore proved of the program on the runs in which every
  amount, share and balance is a finite double.
\<close>

type_synonym rounding = "real \<Rightarrow> real"

definition exact :: rounding where
  "exact x = x"

definition pow2 :: "int \<Rightarrow> real" where
  "pow2 e = (if 0 \<le> e then 2 ^ nat e else 1 / 2 ^ nat (- e))"

text \<open>The binary exponent of a non-zero real: \<open>pow2 (ilog2 x) \<le> \<bar>x\<bar> < pow2 (ilog2 x + 1)\<close>.\<close>

definition ilog2 :: "real \<Rightarrow> int" where
  "ilog2 x =
     (if 1 \<le> \<bar>x\<bar> then bitlen \<lfloor>\<bar>x\<bar>\<rfloor> - 1
      else (let j = bitlen \<lfloor>1 / \<bar>x\<bar>\<rfloor> - 1 in if \<bar>x\<bar> * pow2 j = 1 then - j else - j - 1))"

text \<open>Round to the nearest integer, a tie to the even one.\<close>

definition rne :: "real \<Rightarrow> int" where
  "rne y =
     (let f = \<lfloor>y\<rfloor>; r = y - of_int f
      in if r < 1 / 2 then f else if 1 / 2 < r then f + 1 else if even f then f else f + 1)"

text \<open>
  A double has 53 significant bits; below \<open>2 ^ - 1022\<close> (the subnormal range) the spacing stays
  \<open>2 ^ - 1074\<close>.
\<close>

definition binary64 :: rounding where
  "binary64 x =
     (if x = 0 then 0
      else let e = max (ilog2 x) (- 1022) - 52 in of_int (rne (x / pow2 e)) * pow2 e)"

text \<open>The literals of the source are the doubles nearest to their decimal value.\<close>

definition EPS :: "rounding \<Rightarrow> real" where
  "EPS rnd = rnd (1 / 1000000)"

definition share_tolerance :: "rounding \<Rightarrow> real" where
  "share_tolerance rnd = rnd (1 / 100)"

definition noise_bound :: "rounding \<Rightarrow> real" where
  "noise_bound rnd = rnd (1 / 1000000000)"


section \<open>The data model\<close>

text \<open>
  \<^verbatim>\<open>std::map<string,double>\<close> is an association list whose keys increase strictly in the
  order of \<^verbatim>\<open>std::string\<close> (bytewise lexicographic), which is the order in which the program
  iterates over it. \<open>map_modify f k m\<close> is the statement \<^verbatim>\<open>m[k] = f(m[k])\<close>: \<^verbatim>\<open>operator[]\<close>
  inserts the key with the value \<open>0.0\<close> when it is missing.
\<close>

type_synonym dmap = "(string \<times> real) list"

fun map_modify :: "(real \<Rightarrow> real) \<Rightarrow> string \<Rightarrow> dmap \<Rightarrow> dmap" where
  "map_modify f k [] = [(k, f 0)]"
| "map_modify f k ((k', v) # m) =
     (if k < k' then (k, f 0) # (k', v) # m
      else if k = k' then (k, f v) # m
      else (k', v) # map_modify f k m)"

record Expense =
  payer :: string
  amount :: real
  shares :: dmap

text \<open>
  \<^verbatim>\<open>Book::users\<close> is an \<^verbatim>\<open>unordered_set\<close>: a list without duplicates. Its iteration order is
  not specified by the library; the model takes the order of insertion.
\<close>

record Book =
  users :: "string list"
  expenses :: "Expense list"

datatype err =
    Unknown_payer string
  | No_participants
  | Unknown_participant string
  | No_shares
  | Bad_token string
  | Share_sum_mismatch real real
  | Cannot_open
  | Corrupt_users
  | Corrupt_expenses
  | Corrupt_expense_header
  | Corrupt_shares_tag
  | Corrupt_share_entry

datatype exn = Invalid_argument | Out_of_range

text \<open>
  How a call ends: \<open>Success\<close> is \<^verbatim>\<open>return true\<close>, \<open>Failure e\<close> is \<^verbatim>\<open>return false\<close> with the
  message \<open>e\<close> in \<^verbatim>\<open>err\<close>, \<open>Uncaught x\<close> is an exception that leaves the function (nothing in
  the program catches it), and \<open>Unmodelled\<close> marks an input on which the library computes a
  value that is not a finite real: there the model stops, and the book it returns says
  nothing about the program. Otherwise every operation returns the book as the call leaves
  it.
\<close>

datatype res = Success | Failure err | Uncaught exn | Unmodelled


section \<open>The ledger store and the expense recorder\<close>

definition hasUser :: "Book \<Rightarrow> string \<Rightarrow> bool" where
  "hasUser b u = (u \<in> set (users b))"

definition addUser :: "Book \<Rightarrow> string \<Rightarrow> Book" where
  "addUser b u = (if hasUser b u then b else b\<lparr>users := users b @ [u]\<rparr>)"

text \<open>The first participant that is not a registered user, as the checking loop finds it.\<close>

fun first_unknown :: "Book \<Rightarrow> string list \<Rightarrow> string option" where
  "first_unknown b [] = None"
| "first_unknown b (p # ps) = (if \<not> hasUser b p then Some p else first_unknown b ps)"

definition addExpenseEqual ::
  "rounding \<Rightarrow> Book \<Rightarrow> string \<Rightarrow> real \<Rightarrow> string list \<Rightarrow> res \<times> Book" where
  "addExpenseEqual rnd b pyr amnt participants =
     (if \<not> hasUser b pyr then (Failure (Unknown_payer pyr), b)
      else if participants = [] then (Failure No_participants, b)
      else case first_unknown b participants of
        Some p \<Rightarrow> (Failure (Unknown_participant p), b)
      | None \<Rightarrow>
          let share = rnd (amnt / rnd (of_nat (length participants)));
              e = \<lparr>payer = pyr, amount = amnt,
                   shares = fold (\<lambda>p m. map_modify (\<lambda>v. rnd (v + share)) p m) participants []\<rparr>
          in (Success, b\<lparr>expenses := expenses b @ [e]\<rparr>))"


subsection \<open>\<^verbatim>\<open>std::stod\<close>\<close>

text \<open>
  \<^verbatim>\<open>std::stod\<close> calls \<^verbatim>\<open>strtod\<close>: it skips leading white space, reads an optional sign and the
  longest prefix that is a decimal number (digits with an optional point, then an optional
  exponent), and ignores what follows. Without any digit it throws \<^verbatim>\<open>std::invalid_argument\<close>;
  when \<^verbatim>\<open>strtod\<close> reports a range error, for a magnitude that rounds beyond the largest double
  or a non-zero one below the smallest normal double, it throws \<^verbatim>\<open>std::out_of_range\<close>. The
  words \<^verbatim>\<open>inf\<close> and \<^verbatim>\<open>nan\<close> and hexadecimal numbers are converted by the library to values
  that are not finite reals or that this model does not compute: they yield
  \<open>Stod_unmodelled\<close>, and the model says nothing about a call that meets one.
\<close>

datatype stod_result = Converted real | Stod_throws exn | Stod_unmodelled

definition isspace :: "char \<Rightarrow> bool" where
  "isspace c = (c = CHR '' '' \<or> (CHR 0x09 \<le> c \<and> c \<le> CHR 0x0D))"

definition isdigit :: "char \<Rightarrow> bool" where
  "isdigit c = (CHR ''0'' \<le> c \<and> c \<le> CHR ''9'')"

definition isxdigit :: "char \<Rightarrow> bool" where
  "isxdigit c = (isdigit c \<or> (CHR ''a'' \<le> c \<and> c \<le> CHR ''f'') \<or> (CHR ''A'' \<le> c \<and> c \<le> CHR ''F''))"

definition tolower :: "char \<Rightarrow> char" where
  "tolower c = (if CHR ''A'' \<le> c \<and> c \<le> CHR ''Z'' then char_of (of_char c + (32::nat)) else c)"

definition digit_val :: "char \<Rightarrow> int" where
  "digit_val c = of_char c - 48"

definition digits_val :: "string \<Rightarrow> int" where
  "digits_val ds = foldl (\<lambda>a c. 10 * a + digit_val c) 0 ds"

definition pow10 :: "int \<Rightarrow> real" where
  "pow10 e = (if 0 \<le> e then 10 ^ nat e else 1 / 10 ^ nat (- e))"

definition take_sign :: "string \<Rightarrow> bool \<times> string" where
  "take_sign s =
     (case s of
        [] \<Rightarrow> (False, s)
      | c # r \<Rightarrow> if c = CHR ''-'' then (True, r) else if c = CHR ''+'' then (False, r) else (False, s))"

definition special_form :: "string \<Rightarrow> bool" where
  "special_form s =
     (map tolower (take 3 s) = ''inf'' \<or> map tolower (take 3 s) = ''nan'' \<or>
      (case s of
         z # x # h # r \<Rightarrow>
           z = CHR ''0'' \<and> tolower x = CHR ''x'' \<and>
           (isxdigit h \<or> (h = CHR ''.'' \<and> (case r of [] \<Rightarrow> False | g # _ \<Rightarrow> isxdigit g)))
       | _ \<Rightarrow> False))"

text \<open>The exponent part: \<open>e\<close> or \<open>E\<close>, an optional sign, at least one digit; otherwise none.\<close>

definition exponent_part :: "string \<Rightarrow> int" where
  "exponent_part s =
     (case s of
        [] \<Rightarrow> 0
      | c # r \<Rightarrow>
          if tolower c = CHR ''e'' then
            (let (neg, r') = take_sign r; ds = takeWhile isdigit r'
             in if ds = [] then 0 else if neg then - digits_val ds else digits_val ds)
          else 0)"

text \<open>
  A magnitude of at least \<open>2 ^ 1024 - 2 ^ 970\<close> rounds beyond the largest double; a non-zero
  magnitude below \<open>2 ^ - 1022\<close> is smaller than the smallest normal double.
\<close>

definition overflows :: "real \<Rightarrow> bool" where
  "overflows m = (2 ^ 1024 - 2 ^ 970 \<le> m)"

definition underflows :: "real \<Rightarrow> bool" where
  "underflows m = (0 < m \<and> m < 1 / 2 ^ 1022)"

definition stod :: "rounding \<Rightarrow> string \<Rightarrow> stod_result" where
  "stod rnd str =
     (let (neg, s) = take_sign (dropWhile isspace str)
      in if special_form s then Stod_unmodelled
         else
           let ip = takeWhile isdigit s;
               r1 = dropWhile isdigit s;
               (fp, r2) = (case r1 of
                    [] \<Rightarrow> ([], r1)
                  | c # r \<Rightarrow> if c = CHR ''.'' then (takeWhile isdigit r, dropWhile isdigit r)
                             else ([], r1))
           in if ip = [] \<and> fp = [] then Stod_throws Invalid_argument
              else
                let m = of_int (digits_val (ip @ fp)) / 10 ^ length fp * pow10 (exponent_part r2);
                    v = (if neg then - m else m)
                in if overflows m then Stod_throws Out_of_range
                   else if underflows m then Stod_throws Out_of_range
                   else Converted (rnd v))"


subsection \<open>Exact split\<close>

text \<open>\<^verbatim>\<open>t.find(':')\<close>: the position of the first colon, \<open>None\<close> for \<^verbatim>\<open>npos\<close>.\<close>

fun find_colon :: "string \<Rightarrow> nat option" where
  "find_colon [] = None"
| "find_colon (c # cs) = (if c = CHR '':'' then Some 0 else map_option Suc (find_colon cs))"

text \<open>
  The loop over the tokens, with the expense under construction and the running sum. It
  leaves the function at the first token that has no colon, that \<^verbatim>\<open>stod\<close> rejects, or that
  names an unknown user, in that order.
\<close>

fun exact_tokens ::
  "rounding \<Rightarrow> Book \<Rightarrow> string list \<Rightarrow> Expense \<Rightarrow> real \<Rightarrow> res + (Expense \<times> real)" where
  "exact_tokens rnd b [] e sumShares = Inr (e, sumShares)"
| "exact_tokens rnd b (t # ts) e sumShares =
     (case find_colon t of
        None \<Rightarrow> Inl (Failure (Bad_token t))
      | Some pos \<Rightarrow>
          (case stod rnd (drop (pos + 1) t) of
             Stod_throws x \<Rightarrow> Inl (Uncaught x)
           | Stod_unmodelled \<Rightarrow> Inl Unmodelled
           | Converted s \<Rightarrow>
               if \<not> hasUser b (take pos t) then Inl (Failure (Unknown_participant (take pos t)))
               else exact_tokens rnd b ts
                      (e\<lparr>shares := map_modify (\<lambda>v. rnd (v + s)) (take pos t) (shares e)\<rparr>)
                      (rnd (sumShares + s))))"

definition addExpenseExact ::
  "rounding \<Rightarrow> Book \<Rightarrow> string \<Rightarrow> real \<Rightarrow> string list \<Rightarrow> res \<times> Book" where
  "addExpenseExact rnd b pyr amnt tokens =
     (if \<not> hasUser b pyr then (Failure (Unknown_payer pyr), b)
      else if tokens = [] then (Failure No_shares, b)
      else case exact_tokens rnd b tokens \<lparr>payer = pyr, amount = amnt, shares = []\<rparr> 0 of
        Inl r \<Rightarrow> (r, b)
      | Inr (e, sumShares) \<Rightarrow>
          if \<bar>rnd (sumShares - amnt)\<bar> > share_tolerance rnd
          then (Failure (Share_sum_mismatch sumShares amnt), b)
          else (Success, b\<lparr>expenses := expenses b @ [e]\<rparr>))"


section \<open>The balance engine\<close>

definition add_expense :: "rounding \<Rightarrow> Expense \<Rightarrow> dmap \<Rightarrow> dmap" where
  "add_expense rnd e net =
     fold (\<lambda>(k, s) m. map_modify (\<lambda>v. rnd (v - s)) k m) (shares e)
       (map_modify (\<lambda>v. rnd (v + amount e)) (payer e) net)"

definition clamp_noise :: "rounding \<Rightarrow> dmap \<Rightarrow> dmap" where
  "clamp_noise rnd net = map (\<lambda>(k, v). (k, if \<bar>v\<bar> < noise_bound rnd then 0 else v)) net"

definition computeNet :: "rounding \<Rightarrow> Book \<Rightarrow> dmap" where
  "computeNet rnd b =
     clamp_noise rnd
       (fold (add_expense rnd) (expenses b)
          (fold (\<lambda>u m. map_modify (\<lambda>_. 0) u m) (users b) []))"


section \<open>The settlement solver\<close>

record Node =
  name :: string
  amt :: real

type_synonym txn = "string \<times> string \<times> real"

definition cred :: "rounding \<Rightarrow> dmap \<Rightarrow> Node list" where
  "cred rnd net = map (\<lambda>(u, a). \<lparr>name = u, amt = a\<rparr>) (filter (\<lambda>(u, a). a > EPS rnd) net)"

definition debt :: "rounding \<Rightarrow> dmap \<Rightarrow> Node list" where
  "debt rnd net =
     map (\<lambda>(u, a). \<lparr>name = u, amt = a\<rparr>) (filter (\<lambda>(u, a). \<not> a > EPS rnd \<and> a < - EPS rnd) net)"

definition CmpCred :: "Node \<Rightarrow> Node \<Rightarrow> bool" where
  "CmpCred a b = (amt a < amt b)"

definition CmpDebt :: "Node \<Rightarrow> Node \<Rightarrow> bool" where
  "CmpDebt a b = (amt a > amt b)"

text \<open>
  A \<^verbatim>\<open>std::priority_queue\<close> is the list of its elements. \<open>pq_top cmp q\<close> is an element that no
  other one exceeds under \<open>cmp\<close>; which of several such elements the heap holds on top is not
  specified by the library, and the model takes the one inserted first, which need not be
  the one a given heap implementation takes. Nothing proved below depends on that choice.
  \<open>pq_top\<close> is only called on a queue that is not empty.
\<close>

definition pq_top :: "(Node \<Rightarrow> Node \<Rightarrow> bool) \<Rightarrow> Node list \<Rightarrow> Node" where
  "pq_top cmp q = fold (\<lambda>y best. if cmp best y then y else best) (tl q) (hd q)"

definition pq_pop :: "(Node \<Rightarrow> Node \<Rightarrow> bool) \<Rightarrow> Node list \<Rightarrow> Node list" where
  "pq_pop cmp q = remove1 (pq_top cmp q) q"

text \<open>One pass through the body of the matching loop.\<close>

definition settle_step ::
  "rounding \<Rightarrow> Node list \<times> Node list \<times> txn list \<Rightarrow> Node list \<times> Node list \<times> txn list" where
  "settle_step rnd st =
     (case st of (C, D, txns) \<Rightarrow>
        let c = pq_top CmpCred C; C1 = pq_pop CmpCred C;
            d = pq_top CmpDebt D; D1 = pq_pop CmpDebt D;
            pay = min (amt c) (- amt d);
            txns1 = (if pay > EPS rnd then txns @ [(name d, name c, pay)] else txns);
            c1 = c\<lparr>amt := rnd (amt c - pay)\<rparr>;
            d1 = d\<lparr>amt := rnd (amt d + pay)\<rparr>;
            C2 = (if amt c1 > EPS rnd then C1 @ [c1] else C1);
            D2 = (if amt d1 < - EPS rnd then D1 @ [d1] else D1)
        in (C2, D2, txns1))"

text \<open>The loop itself; \<open>None\<close> is a loop that never ends.\<close>

partial_function (option) settle_loop ::
  "rounding \<Rightarrow> Node list \<Rightarrow> Node list \<Rightarrow> txn list \<Rightarrow> txn list option" where
  "settle_loop rnd C D txns =
     (if C \<noteq> [] \<and> D \<noteq> [] then
        (case settle_step rnd (C, D, txns) of (C2, D2, txns1) \<Rightarrow> settle_loop rnd C2 D2 txns1)
      else Some txns)"

declare settle_loop.simps [code]

definition settle_net :: "rounding \<Rightarrow> dmap \<Rightarrow> txn list option" where
  "settle_net rnd net = settle_loop rnd (cred rnd net) (debt rnd net) []"

definition settle :: "rounding \<Rightarrow> Book \<Rightarrow> txn list option" where
  "settle rnd b = settle_net rnd (computeNet rnd b)"



section \<open>Saving and loading\<close>

text \<open>
  A file is the string of its characters; opening a path gives \<open>Some\<close> contents or \<open>None\<close>
  when the file cannot be opened.
\<close>

subsection \<open>\<^verbatim>\<open>save\<close>\<close>

definition digit_char :: "int \<Rightarrow> char" where
  "digit_char d = char_of (48 + d)"

text \<open>The decimal digits of a non-negative integer.\<close>

function decimal :: "int \<Rightarrow> string" where
  "decimal n = (if n < 10 then [digit_char n] else decimal (n div 10) @ [digit_char (n mod 10)])"
  by pat_completeness auto
termination
  by (relation "measure nat") auto

declare decimal.simps [simp del]

text \<open>
  A double written with \<^verbatim>\<open>std::fixed\<close> and \<^verbatim>\<open>setprecision(2)\<close>: the sign, the integer part, a
  point and two decimals, of the value rounded to hundredths (a tie to the even one).
\<close>

definition fixed2 :: "real \<Rightarrow> string" where
  "fixed2 x =
     (let h = rne (\<bar>x\<bar> * 100)
      in (if x < 0 then ''-'' else []) @ decimal (h div 100) @ ''.'' @
         [digit_char (h mod 100 div 10), digit_char (h mod 10)])"

definition share_text :: "string \<times> real \<Rightarrow> string" where
  "share_text ks = (case ks of (k, s) \<Rightarrow> k @ '' '' @ fixed2 s @ [CHR 0x0A])"

definition expense_text :: "Expense \<Rightarrow> string" where
  "expense_text e =
     ''PAYER '' @ payer e @ '' AMT '' @ fixed2 (amount e) @ [CHR 0x0A] @
     ''SHARES '' @ decimal (int (length (shares e))) @ [CHR 0x0A] @
     concat (map share_text (shares e))"

definition save_text :: "Book \<Rightarrow> string" where
  "save_text b =
     ''USERS '' @ decimal (int (length (users b))) @ [CHR 0x0A] @
     concat (map (\<lambda>u. u @ [CHR 0x0A]) (users b)) @
     ''EXPENSES '' @ decimal (int (length (expenses b))) @ [CHR 0x0A] @
     concat (map expense_text (expenses b))"

text \<open>\<open>writable\<close> says whether the path can be opened for writing. \<^verbatim>\<open>save\<close> is \<^verbatim>\<open>const\<close>.\<close>

definition save :: "Book \<Rightarrow> bool \<Rightarrow> res \<times> string option" where
  "save b writable = (if \<not> writable then (Failure Cannot_open, None) else (Success, Some (save_text b)))"


subsection \<open>Formatted input\<close>

text \<open>
  The stream is the string of the characters not yet read. An extraction that fails gives
  \<open>None\<close>; it sets the fail bit, and \<^verbatim>\<open>load\<close> returns at once wherever it tests the stream.
\<close>

text \<open>\<^verbatim>\<open>in >> word\<close>: skip white space, then the characters up to the next white space.\<close>

definition read_word :: "string \<Rightarrow> (string \<times> string) option" where
  "read_word s =
     (let s1 = dropWhile isspace s
      in if s1 = [] then None
         else Some (takeWhile (\<lambda>c. \<not> isspace c) s1, dropWhile (\<lambda>c. \<not> isspace c) s1))"

text \<open>
  \<^verbatim>\<open>in >> n\<close> for a \<^verbatim>\<open>size_t\<close> of 64 bits: an optional sign and decimal digits; a magnitude
  above \<open>2 ^ 64 - 1\<close> fails, and a minus sign negates modulo \<open>2 ^ 64\<close>.
\<close>

definition read_size :: "string \<Rightarrow> (nat \<times> string) option" where
  "read_size s =
     (let (neg, s1) = take_sign (dropWhile isspace s);
          ds = takeWhile isdigit s1;
          v = digits_val ds
      in if ds = [] \<or> 2 ^ 64 \<le> v then None
         else Some (nat (if neg then (2 ^ 64 - v) mod 2 ^ 64 else v), dropWhile isdigit s1))"

text \<open>
  \<^verbatim>\<open>in >> x\<close> for a \<^verbatim>\<open>double\<close>: an optional sign, digits with an optional point, and after
  at least one digit an optional exponent. The characters taken must form a complete number
  (an exponent letter without digits fails), and a magnitude beyond the largest double fails.
\<close>

definition read_double :: "rounding \<Rightarrow> string \<Rightarrow> (real \<times> string) option" where
  "read_double rnd s =
     (let (neg, s1) = take_sign (dropWhile isspace s);
          ip = takeWhile isdigit s1;
          r1 = dropWhile isdigit s1;
          (fp, r2) = (case r1 of
               [] \<Rightarrow> ([], r1)
             | c # r \<Rightarrow> if c = CHR ''.'' then (takeWhile isdigit r, dropWhile isdigit r)
                        else ([], r1))
      in if ip = [] \<and> fp = [] then None
         else
           (case (case r2 of
                    [] \<Rightarrow> Some (0, r2)
                  | c # r \<Rightarrow>
                      if tolower c = CHR ''e'' then
                        (let (eneg, r') = take_sign r; ds = takeWhile isdigit r'
                         in if ds = [] then None
                            else Some (if eneg then - digits_val ds else digits_val ds,
                                       dropWhile isdigit r'))
                      else Some (0, r2)) of
              None \<Rightarrow> None
            | Some (ex, rest) \<Rightarrow>
                let m = of_int (digits_val (ip @ fp)) / 10 ^ length fp * pow10 ex
                in if overflows m then None
                   else Some (rnd (if neg then - m else m), rest)))"

text \<open>\<^verbatim>\<open>in.ignore(max, '\n')\<close>: drop the characters up to and including the next line feed.\<close>

definition ignore_line :: "string \<Rightarrow> string" where
  "ignore_line s = drop 1 (dropWhile (\<lambda>c. c \<noteq> CHR 0x0A) s)"

text \<open>
  \<^verbatim>\<open>getline(in, u)\<close>: the characters up to the next line feed, which is dropped. At the end
  of the file it reads nothing and \<^verbatim>\<open>u\<close> stays empty.
\<close>

definition getline :: "string \<Rightarrow> string \<times> string" where
  "getline s = (takeWhile (\<lambda>c. c \<noteq> CHR 0x0A) s, ignore_line s)"


subsection \<open>\<^verbatim>\<open>load\<close>\<close>

text \<open>
  The loop that reads the user names, with the number of names still to read. An empty
  line does not count (\<^verbatim>\<open>--i; continue\<close>); at the end of the file every further line is
  empty, and the loop never ends: \<open>None\<close>.
\<close>

partial_function (option) load_users ::
  "nat \<Rightarrow> string \<Rightarrow> string list \<Rightarrow> (string \<times> string list) option" where
  "load_users k s us =
     (if k = 0 then Some (s, us)
      else case getline s of (u, s') \<Rightarrow>
        if u = [] then load_users k s' us
        else load_users (k - 1) s' (if u \<in> set us then us else us @ [u]))"

declare load_users.simps [code]

text \<open>The loop over the share entries of one expense: \<^verbatim>\<open>e.shares[name] = s\<close>.\<close>

fun load_shares :: "rounding \<Rightarrow> nat \<Rightarrow> string \<Rightarrow> Expense \<Rightarrow> (Expense \<times> string) option" where
  "load_shares rnd 0 s e = Some (e, s)"
| "load_shares rnd (Suc m) s e =
     (case read_word s of
        None \<Rightarrow> None
      | Some (nm, s1) \<Rightarrow>
          (case read_double rnd s1 of
             None \<Rightarrow> None
           | Some (x, s2) \<Rightarrow> load_shares rnd m s2 (e\<lparr>shares := map_modify (\<lambda>_. x) nm (shares e)\<rparr>)))"

text \<open>The loop over the expenses; it returns with the expenses pushed so far.\<close>

fun load_expenses :: "rounding \<Rightarrow> nat \<Rightarrow> string \<Rightarrow> Book \<Rightarrow> res \<times> Book" where
  "load_expenses rnd 0 s b = (Success, b)"
| "load_expenses rnd (Suc n) s b =
     (case read_word s of
        None \<Rightarrow> (Failure Corrupt_expense_header, b)
      | Some (tag1, s1) \<Rightarrow>
     (case read_word s1 of
        None \<Rightarrow> (Failure Corrupt_expense_header, b)
      | Some (pyr, s2) \<Rightarrow>
     (case read_word s2 of
        None \<Rightarrow> (Failure Corrupt_expense_header, b)
      | Some (tag2, s3) \<Rightarrow>
     (case read_double rnd s3 of
        None \<Rightarrow> (Failure Corrupt_expense_header, b)
      | Some (amnt, s4) \<Rightarrow>
          if tag1 \<noteq> ''PAYER'' \<or> tag2 \<noteq> ''AMT'' then (Failure Corrupt_expense_header, b)
          else
     (case read_word s4 of
        None \<Rightarrow> (Failure Corrupt_shares_tag, b)
      | Some (tag3, s5) \<Rightarrow>
     (case read_size s5 of
        None \<Rightarrow> (Failure Corrupt_shares_tag, b)
      | Some (m, s6) \<Rightarrow>
          if tag3 \<noteq> ''SHARES'' then (Failure Corrupt_shares_tag, b)
          else
     (case load_shares rnd m s6 \<lparr>payer = pyr, amount = amnt, shares = []\<rparr> of
        None \<Rightarrow> (Failure Corrupt_share_entry, b)
      | Some (e, s7) \<Rightarrow> load_expenses rnd n s7 (b\<lparr>expenses := expenses b @ [e]\<rparr>))))))))"

text \<open>
  \<^verbatim>\<open>load\<close>: the store is cleared as soon as the file is open. The result is \<open>None\<close> when the
  loop over the user names does not end.
\<close>

definition load :: "rounding \<Rightarrow> Book \<Rightarrow> string option \<Rightarrow> (res \<times> Book) option" where
  "load rnd b file =
     (case file of
        None \<Rightarrow> Some (Failure Cannot_open, b)
      | Some s \<Rightarrow>
          (case read_word s of
             None \<Rightarrow> Some (Failure Corrupt_users, \<lparr>users = [], expenses = []\<rparr>)
           | Some (tag, s1) \<Rightarrow>
          (case read_size s1 of
             None \<Rightarrow> Some (Failure Corrupt_users, \<lparr>users = [], expenses = []\<rparr>)
           | Some (n, s2) \<Rightarrow>
               if tag \<noteq> ''USERS'' then Some (Failure Corrupt_users, \<lparr>users = [], expenses = []\<rparr>)
               else
          (case load_users n (ignore_line s2) [] of
             None \<Rightarrow> None
           | Some (s3, us) \<Rightarrow>
          (case read_word s3 of
             None \<Rightarrow> Some (Failure Corrupt_expenses, \<lparr>users = us, expenses = []\<rparr>)
           | Some (tag', s4) \<Rightarrow>
          (case read_size s4 of
             None \<Rightarrow> Some (Failure Corrupt_expenses, \<lparr>users = us, expenses = []\<rparr>)
           | Some (n', s5) \<Rightarrow>
               if tag' \<noteq> ''EXPENSES''
               then Some (Failure Corrupt_expenses, \<lparr>users = us, expenses = []\<rparr>)
               else Some (load_expenses rnd n' s5 \<lparr>users = us, expenses = []\<rparr>)))))))"


section \<open>Notions used to state the properties\<close>

text \<open>
  What one token contributes: the name before the first colon and the share that
  \<^verbatim>\<open>stod\<close> converts from the rest; \<open>None\<close> for a token the loop does not get past.
\<close>

definition parse_token :: "rounding \<Rightarrow> string \<Rightarrow> (string \<times> real) option" where
  "parse_token rnd t =
     (case find_colon t of
        None \<Rightarrow> None
      | Some pos \<Rightarrow>
          (case stod rnd (drop (pos + 1) t) of
             Converted s \<Rightarrow> Some (take pos t, s)
           | _ \<Rightarrow> None))"

text \<open>The sum of the shares of the tokens, added from left to right as the loop adds them.\<close>

fun sum_tokens :: "rounding \<Rightarrow> real \<Rightarrow> string list \<Rightarrow> real" where
  "sum_tokens rnd acc [] = acc"
| "sum_tokens rnd acc (t # ts) =
     sum_tokens rnd (case parse_token rnd t of Some (n, s) \<Rightarrow> rnd (acc + s) | None \<Rightarrow> acc) ts"

definition token_share_sum :: "rounding \<Rightarrow> string list \<Rightarrow> real" where
  "token_share_sum rnd ts = sum_tokens rnd 0 ts"

text \<open>Every token has the form \<^verbatim>\<open>name:number\<close> and names a registered user.\<close>

definition valid_tokens :: "rounding \<Rightarrow> Book \<Rightarrow> string list \<Rightarrow> bool" where
  "valid_tokens rnd b ts =
     list_all (\<lambda>t. case parse_token rnd t of Some (n, s) \<Rightarrow> hasUser b n | None \<Rightarrow> False) ts"

definition is_share_mismatch :: "res \<Rightarrow> bool" where
  "is_share_mismatch r = (case r of Failure (Share_sum_mismatch x y) \<Rightarrow> True | _ \<Rightarrow> False)"


text \<open>
  A settlement transaction \<open>(from, to, amount)\<close> applied to a balance mapping. The loop of
  \<^verbatim>\<open>settle\<close> moves the debtor \<open>from\<close> up by the amount and the creditor \<open>to\<close> down by it;
  \<open>apply_txn_stated\<close> is the opposite direction: the amount subtracted from \<open>from\<close> and
  added to \<open>to\<close>.
\<close>

definition apply_txn :: "rounding \<Rightarrow> txn \<Rightarrow> dmap \<Rightarrow> dmap" where
  "apply_txn rnd x bal =
     (case x of (f, t, a) \<Rightarrow>
        map_modify (\<lambda>v. rnd (v - a)) t (map_modify (\<lambda>v. rnd (v + a)) f bal))"

definition apply_txn_stated :: "rounding \<Rightarrow> txn \<Rightarrow> dmap \<Rightarrow> dmap" where
  "apply_txn_stated rnd x bal =
     (case x of (f, t, a) \<Rightarrow>
        map_modify (\<lambda>v. rnd (v + a)) t (map_modify (\<lambda>v. rnd (v - a)) f bal))"

definition all_settled :: "rounding \<Rightarrow> dmap \<Rightarrow> bool" where
  "all_settled rnd bal = list_all (\<lambda>(u, v). \<bar>v\<bar> \<le> EPS rnd) bal"

definition sorted_keys :: "dmap \<Rightarrow> bool" where
  "sorted_keys m = sorted_wrt (<) (map fst m)"

text \<open>The value a mapping holds for a key, \<open>0\<close> when the key is missing.\<close>

definition val :: "dmap \<Rightarrow> string \<Rightarrow> real" where
  "val m k = (case map_of m k of None \<Rightarrow> 0 | Some v \<Rightarrow> v)"

text \<open>
  What holds between two passes of the matching loop, for the balances \<open>bal\<close> obtained by
  applying the transactions emitted so far: the queued nodes carry distinct names and the
  current balance of their user, creditors above \<open>EPS\<close> and debtors below \<open>- EPS\<close>, and every
  user who is not queued is within \<open>EPS\<close> of zero.
\<close>

definition settle_inv :: "rounding \<Rightarrow> dmap \<Rightarrow> Node list \<Rightarrow> Node list \<Rightarrow> bool" where
  "settle_inv rnd bal C D =
     (sorted_keys bal \<and> distinct (map name (C @ D)) \<and>
      (\<forall>n \<in> set C. EPS rnd < amt n \<and> map_of bal (name n) = Some (amt n)) \<and>
      (\<forall>n \<in> set D. amt n < - EPS rnd \<and> map_of bal (name n) = Some (amt n)) \<and>
      (\<forall>k v. map_of bal k = Some v \<and> k \<notin> name ` set (C @ D) \<longrightarrow> \<bar>v\<bar> \<le> EPS rnd))"


text \<open>
  A bound on the rounding error: every real of magnitude at most \<open>M\<close> is rounded to within
  \<open>\<epsilon>\<close>. Exact arithmetic has \<open>\<epsilon> = 0\<close> for every \<open>M\<close>; \<open>binary64\<close> has
  \<open>\<epsilon> = 2 ^ (k - 53)\<close> for \<open>M = 2 ^ k\<close>.
\<close>

definition rounds_within :: "rounding \<Rightarrow> real \<Rightarrow> real \<Rightarrow> bool" where
  "rounds_within rnd M \<epsilon> = (\<forall>x. \<bar>x\<bar> \<le> M \<longrightarrow> \<bar>rnd x - x\<bar> \<le> \<epsilon>)"






text \<open>What an expense adds to the balance of a user.\<close>

definition contribution :: "Expense \<Rightarrow> string \<Rightarrow> real" where
  "contribution e k =
     (if payer e = k then amount e else 0) -
     sum_list (map snd (filter (\<lambda>(k', s). k' = k) (shares e)))"




text \<open>
  What \<^verbatim>\<open>load\<close> reads back as \<^verbatim>\<open>save\<close> wrote it. A name read with \<^verbatim>\<open>>>\<close> is a non-empty word
  without white space, and a user name, read with \<^verbatim>\<open>getline\<close>, a non-empty line. A number
  reads back when it is the double that its own text with two decimals denotes.
\<close>

definition word :: "string \<Rightarrow> bool" where
  "word w = (w \<noteq> [] \<and> list_all (\<lambda>c. \<not> isspace c) w)"

definition reads_back :: "rounding \<Rightarrow> real \<Rightarrow> bool" where
  "reads_back rnd x =
     (let m = of_int (rne (\<bar>x\<bar> * 100)) / 100
      in \<not> overflows m \<and> rnd (if x < 0 then - m else m) = x)"

definition line :: "string \<Rightarrow> bool" where
  "line u = (u \<noteq> [] \<and> list_all (\<lambda>c. c \<noteq> CHR 0x0A) u)"

definition storable_share :: "rounding \<Rightarrow> string \<times> real \<Rightarrow> bool" where
  "storable_share rnd ks = (word (fst ks) \<and> reads_back rnd (snd ks))"

definition storable_expense :: "rounding \<Rightarrow> Expense \<Rightarrow> bool" where
  "storable_expense rnd e =
     (word (payer e) \<and> reads_back rnd (amount e) \<and> sorted_keys (shares e) \<and>
      int (length (shares e)) < 2 ^ 64 \<and> list_all (storable_share rnd) (shares e))"

definition storable :: "rounding \<Rightarrow> Book \<Rightarrow> bool" where
  "storable rnd b =
     (distinct (users b) \<and> list_all line (users b) \<and> int (length (users b)) < 2 ^ 64 \<and>
      int (length (expenses b)) < 2 ^ 64 \<and> list_all (storable_expense rnd) (expenses b))"


subsection \<open>Example ledgers\<close>

definition book_AB :: Book where
  "book_AB = addUser (addUser \<lparr>users = [], expenses = []\<rparr> ''A'') ''B''"

text \<open>\<open>A\<close> pays 10 and names \<open>B\<close> for 10.005: accepted, the difference is within 0.01.\<close>

definition book_uneven :: Book where
  "book_uneven = snd (addExpenseExact binary64 book_AB ''A'' 10 [''B:10.005''])"

text \<open>
  \<open>A\<close> pays 0.1, 0.2 and 0.3 for \<open>B\<close>, recorded in that order and in the opposite order. The
  amounts are the doubles nearest to the decimal numbers, as the command line reads them.
\<close>

definition book_123 :: Book where
  "book_123 =
     snd (addExpenseEqual binary64
       (snd (addExpenseEqual binary64
         (snd (addExpenseEqual binary64 book_AB ''A'' (binary64 (1 / 10)) [''B'']))
         ''A'' (binary64 (2 / 10)) [''B'']))
       ''A'' (binary64 (3 / 10)) [''B''])"

definition book_321 :: Book where
  "book_321 =
     snd (addExpenseEqual binary64
       (snd (addExpenseEqual binary64
         (snd (addExpenseEqual binary64 book_AB ''A'' (binary64 (3 / 10)) [''B'']))
         ''A'' (binary64 (2 / 10)) [''B'']))
       ''A'' (binary64 (1 / 10)) [''B''])"


text \<open>\<open>A\<close> pays 10, split equally among \<open>A\<close>, \<open>B\<close> and \<open>C\<close>.\<close>

definition book_thirds :: Book where
  "book_thirds = snd (addExpenseEqual binary64 (addUser book_AB ''C'') ''A'' 10 [''A'', ''B'', ''C''])"

text \<open>\<open>A\<close> pays 10, split as 3.3 for \<open>A\<close> and 6.7 for \<open>B\<close>.\<close>

definition book_split :: Book where
  "book_split = snd (addExpenseExact binary64 book_AB ''A'' 10 [''A:3.3'', ''B:6.7''])"

text \<open>A user whose name has a space pays 10 for themselves.\<close>

definition book_spaced :: Book where
  "book_spaced =
     snd (addExpenseEqual binary64 (addUser \<lparr>users = [], expenses = []\<rparr> ''A B'') ''A B'' 10 [''A B''])"



section \<open>Properties\<close>


subsection \<open>Evaluating the model on concrete inputs\<close>

lemma binary64_zero: "binary64 0 = 0"
  by (simp add: binary64_def)

lemma binary64_nonzero:
  "x \<noteq> 0 \<Longrightarrow>
   binary64 x = (let e = max (ilog2 x) (- 1022) - 52 in of_int (rne (x / pow2 e)) * pow2 e)"
  by (simp add: binary64_def)

lemma bitlen_pos: "0 < x \<Longrightarrow> bitlen x = bitlen (x div 2) + 1"
  by (subst compute_bitlen) simp

lemma bitlen_nonpos: "x \<le> 0 \<Longrightarrow> bitlen x = 0"
  by (subst compute_bitlen) simp

lemma no_overflow: "m < 2 ^ 64 \<Longrightarrow> overflows m = False"
proof -
  have "(2::real) ^ 64 \<le> 2 ^ 1024 - 2 ^ 970" by simp
  then show "m < 2 ^ 64 \<Longrightarrow> overflows m = False" by (simp add: overflows_def)
qed

lemma no_underflow: "1 / 2 ^ 64 \<le> m \<Longrightarrow> underflows m = False"
proof -
  have "(1::real) / 2 ^ 1022 \<le> 1 / 2 ^ 64" by simp
  then show "1 / 2 ^ 64 \<le> m \<Longrightarrow> underflows m = False" by (simp add: underflows_def)
qed

lemmas fp_eval =
  binary64_zero binary64_nonzero bitlen_pos bitlen_nonpos ilog2_def rne_def pow2_def Let_def
  exact_def EPS_def share_tolerance_def noise_bound_def

lemmas stod_eval =
  isspace_def isdigit_def isxdigit_def tolower_def digit_val_def digits_val_def
  stod_def take_sign_def special_form_def exponent_part_def pow10_def no_overflow no_underflow

lemmas model_eval =
  hasUser_def addUser_def addExpenseEqual_def addExpenseExact_def add_expense_def
  clamp_noise_def computeNet_def cred_def debt_def CmpCred_def CmpDebt_def pq_top_def
  pq_pop_def settle_step_def settle_loop.simps settle_net_def settle_def
  parse_token_def token_share_sum_def valid_tokens_def is_share_mismatch_def

lemma EPS_binary64_nonneg: "0 \<le> EPS binary64"
  by (simp add: fp_eval)

subsection \<open>Properties of the rounding \<open>binary64\<close>\<close>

lemma pow2_powi: "pow2 e = 2 powi e"
proof (cases "0 \<le> e")
  case True
  then show ?thesis by (simp add: pow2_def power_int_def)
next
  case False
  have "inverse (2::real) ^ nat (- e) = 1 / 2 ^ nat (- e)"
    by (simp add: inverse_eq_divide power_one_over)
  with False show ?thesis by (simp only: pow2_def power_int_def if_False)
qed

lemma pow2_pos: "0 < pow2 e"
  by (simp add: pow2_powi)

lemma pow2_add: "pow2 (a + b) = pow2 a * pow2 b"
  by (simp add: pow2_powi power_int_add)

lemma pow2_strict: "a < b \<Longrightarrow> pow2 a < pow2 b"
  unfolding pow2_powi by (rule power_int_strict_increasing) simp_all

lemma pow2_less_iff: "pow2 a < pow2 b \<longleftrightarrow> a < b"
proof
  assume l: "pow2 a < pow2 b"
  show "a < b"
  proof (rule ccontr)
    assume "\<not> a < b"
    then have "b = a \<or> b < a" by auto
    then have "pow2 b \<le> pow2 a" using pow2_strict [of b a] by auto
    with l show False by simp
  qed
qed (rule pow2_strict)

lemma pow2_le_iff: "pow2 a \<le> pow2 b \<longleftrightarrow> a \<le> b"
  using pow2_less_iff [of b a] by (simp add: not_less [symmetric])

lemma pow2_nat: "0 \<le> e \<Longrightarrow> pow2 e = 2 ^ nat e"
  by (simp add: pow2_def)

lemma pow2_of_int: "0 \<le> e \<Longrightarrow> pow2 e = of_int (2 ^ nat e)"
  by (simp add: pow2_def)

lemma pow2_neg: "pow2 (- e) = 1 / pow2 e"
  by (simp add: pow2_powi power_int_minus divide_inverse)

lemma ilog2_bounds:
  assumes "x \<noteq> 0"
  shows "pow2 (ilog2 x) \<le> \<bar>x\<bar> \<and> \<bar>x\<bar> < pow2 (ilog2 x + 1)"
proof (cases "1 \<le> \<bar>x\<bar>")
  case True
  define n where "n = \<lfloor>\<bar>x\<bar>\<rfloor>"
  have n: "0 < n" using True by (simp add: n_def)
  have il: "ilog2 x = bitlen n - 1" using True by (simp add: ilog2_def n_def)
  from n have b1: "1 \<le> bitlen n" by (auto simp: bitlen_alt_def)
  from bitlen_bounds [OF n] have lo: "2 ^ nat (bitlen n - 1) \<le> n" and hi: "n < 2 ^ nat (bitlen n)"
    by simp_all
  have "pow2 (bitlen n - 1) = of_int (2 ^ nat (bitlen n - 1))" using b1 by (simp add: pow2_of_int)
  also have "\<dots> \<le> of_int n" using lo by (simp only: of_int_le_iff)
  also have "\<dots> \<le> \<bar>x\<bar>" by (simp add: n_def)
  finally have 1: "pow2 (ilog2 x) \<le> \<bar>x\<bar>" by (simp add: il)
  have "n + 1 \<le> 2 ^ nat (bitlen n)" using hi by simp
  then have "(of_int (n + 1) :: real) \<le> of_int (2 ^ nat (bitlen n))" by (simp only: of_int_le_iff)
  moreover have "\<bar>x\<bar> < of_int (n + 1)" unfolding n_def by linarith
  ultimately have "\<bar>x\<bar> < of_int (2 ^ nat (bitlen n))" by linarith
  also have "\<dots> = pow2 (bitlen n)" using b1 by (simp add: pow2_of_int)
  finally have 2: "\<bar>x\<bar> < pow2 (ilog2 x + 1)" by (simp add: il)
  from 1 2 show ?thesis ..
next
  case False
  define y where "y = 1 / \<bar>x\<bar>"
  define n where "n = \<lfloor>y\<rfloor>"
  define j where "j = bitlen n - 1"
  have xpos: "0 < \<bar>x\<bar>" using assms by simp
  have y1: "1 < y" using False xpos by (simp add: y_def)
  have n: "0 < n" using y1 by (simp add: n_def)
  from n have b1: "1 \<le> bitlen n" by (auto simp: bitlen_alt_def)
  then have j0: "0 \<le> j" by (simp add: j_def)
  from bitlen_bounds [OF n] have lo: "2 ^ nat j \<le> n" and hi: "n < 2 ^ nat (j + 1)"
    by (simp_all add: j_def)
  have "pow2 j = of_int (2 ^ nat j)" using j0 by (simp add: pow2_of_int)
  also have "\<dots> \<le> of_int n" using lo by (simp only: of_int_le_iff)
  also have "\<dots> \<le> y" by (simp add: n_def)
  finally have ylo: "pow2 j \<le> y" .
  have "n + 1 \<le> 2 ^ nat (j + 1)" using hi by simp
  then have "(of_int (n + 1) :: real) \<le> of_int (2 ^ nat (j + 1))" by (simp only: of_int_le_iff)
  moreover have "y < of_int (n + 1)" unfolding n_def by linarith
  ultimately have "y < of_int (2 ^ nat (j + 1))" by linarith
  also have "\<dots> = pow2 (j + 1)" using j0 by (simp add: pow2_of_int)
  finally have yhi: "y < pow2 (j + 1)" .
  have xle: "\<bar>x\<bar> * pow2 j \<le> 1"
    using ylo xpos pow2_pos [of j] by (simp add: y_def field_simps)
  have xgt: "1 < \<bar>x\<bar> * pow2 (j + 1)"
    using yhi xpos pow2_pos [of "j + 1"] by (simp add: y_def field_simps)
  have il: "ilog2 x = (if \<bar>x\<bar> * pow2 j = 1 then - j else - j - 1)"
    using False by (simp add: ilog2_def Let_def y_def n_def j_def)
  show ?thesis
  proof (cases "\<bar>x\<bar> * pow2 j = 1")
    case True
    then have eq: "\<bar>x\<bar> = pow2 (- j)" using pow2_pos [of j] by (simp add: pow2_neg field_simps)
    have "pow2 (- j) < pow2 (- j + 1)" by (simp add: pow2_less_iff)
    with eq il True show ?thesis by simp
  next
    case ne: False
    with xle have "\<bar>x\<bar> * pow2 j < 1" by simp
    then have 2: "\<bar>x\<bar> < pow2 (- j)" using pow2_pos [of j] by (simp add: pow2_neg field_simps)
    have "pow2 (- j - 1) * pow2 (j + 1) = 1" using pow2_add [of "- j - 1" "j + 1"] by (simp add: pow2_def)
    with xgt have "pow2 (- j - 1) * pow2 (j + 1) < \<bar>x\<bar> * pow2 (j + 1)" by simp
    then have 1: "pow2 (- j - 1) < \<bar>x\<bar>" using pow2_pos [of "j + 1"] by (simp only: mult_less_cancel_right_pos)
    from 1 2 il ne show ?thesis by simp
  qed
qed

lemma ilog2_unique:
  assumes "pow2 k \<le> \<bar>x\<bar>" and "\<bar>x\<bar> < pow2 (k + 1)"
  shows "ilog2 x = k"
proof -
  have x0: "x \<noteq> 0" using assms(1) pow2_pos [of k] by auto
  from ilog2_bounds [OF x0] have lo: "pow2 (ilog2 x) \<le> \<bar>x\<bar>" and hi: "\<bar>x\<bar> < pow2 (ilog2 x + 1)"
    by simp_all
  from lo assms(2) have "pow2 (ilog2 x) < pow2 (k + 1)" by linarith
  then have 1: "ilog2 x < k + 1" by (simp only: pow2_less_iff)
  from assms(1) hi have "pow2 k < pow2 (ilog2 x + 1)" by linarith
  then have 2: "k < ilog2 x + 1" by (simp only: pow2_less_iff)
  from 1 2 show ?thesis by simp
qed

lemma ilog2_mono:
  assumes "x \<noteq> 0" and "\<bar>x\<bar> \<le> \<bar>y\<bar>"
  shows "ilog2 x \<le> ilog2 y"
proof -
  have y0: "y \<noteq> 0" using assms by auto
  from ilog2_bounds [OF assms(1)] have lo: "pow2 (ilog2 x) \<le> \<bar>x\<bar>" by simp
  from ilog2_bounds [OF y0] have hi: "\<bar>y\<bar> < pow2 (ilog2 y + 1)" by simp
  from lo hi assms(2) have "pow2 (ilog2 x) < pow2 (ilog2 y + 1)" by linarith
  then have "ilog2 x < ilog2 y + 1" by (simp only: pow2_less_iff)
  then show ?thesis by simp
qed

lemma ilog2_minus: "ilog2 (- x) = ilog2 x"
  by (simp add: ilog2_def)

lemma rne_cases:
  "(rne y = \<lfloor>y\<rfloor> \<and> y - of_int \<lfloor>y\<rfloor> \<le> 1 / 2) \<or>
   (rne y = \<lfloor>y\<rfloor> + 1 \<and> 1 / 2 \<le> y - of_int \<lfloor>y\<rfloor>)"
  unfolding rne_def Let_def by (cases "y - of_int \<lfloor>y\<rfloor> < 1 / 2"; cases "1 / 2 < y - of_int \<lfloor>y\<rfloor>") simp_all

lemma rne_error: "\<bar>of_int (rne y) - y\<bar> \<le> 1 / 2"
proof -
  have fl: "of_int \<lfloor>y\<rfloor> \<le> y" "y < of_int \<lfloor>y\<rfloor> + 1" by linarith+
  from rne_cases [of y] show ?thesis
  proof
    assume "rne y = \<lfloor>y\<rfloor> \<and> y - of_int \<lfloor>y\<rfloor> \<le> 1 / 2"
    with fl show ?thesis by simp
  next
    assume "rne y = \<lfloor>y\<rfloor> + 1 \<and> 1 / 2 \<le> y - of_int \<lfloor>y\<rfloor>"
    with fl show ?thesis by simp
  qed
qed

lemma rne_of_int: "rne (of_int n) = n"
  by (simp add: rne_def)

lemma rne_floor: "\<lfloor>y\<rfloor> \<le> rne y \<and> rne y \<le> \<lfloor>y\<rfloor> + 1"
  by (simp add: rne_def Let_def)

lemma rne_mono:
  assumes "x \<le> y"
  shows "rne x \<le> rne y"
proof (cases "\<lfloor>x\<rfloor> = \<lfloor>y\<rfloor>")
  case True
  with assms show ?thesis by (auto simp: rne_def Let_def)
next
  case False
  with assms have lt: "\<lfloor>x\<rfloor> + 1 \<le> \<lfloor>y\<rfloor>" using floor_mono [OF assms] by simp
  from rne_floor [of x] rne_floor [of y] lt show ?thesis by linarith
qed

lemma rne_minus: "rne (- y) = - rne y"
proof (cases "y = of_int \<lfloor>y\<rfloor>")
  case True
  then obtain n where "y = of_int n" ..
  then show ?thesis by (simp add: rne_of_int flip: of_int_minus)
next
  case False
  then have fl: "\<lfloor>- y\<rfloor> = - \<lfloor>y\<rfloor> - 1"
    by (simp add: floor_minus ceiling_altdef)
  define f where "f = \<lfloor>y\<rfloor>"
  define r where "r = y - of_int f"
  have r': "- y - of_int (- f - 1) = 1 - r" by (simp add: r_def)
  have ev: "even (- f - 1) \<longleftrightarrow> odd f" by simp
  show ?thesis
    unfolding rne_def Let_def fl f_def [symmetric] r' r_def [symmetric] ev
    by (cases "r < 1 / 2"; cases "1 / 2 < r") auto
qed


lemma binary64_minus: "binary64 (- x) = - binary64 x"
proof (cases "x = 0")
  case True
  then show ?thesis by (simp add: binary64_def)
next
  case False
  then show ?thesis
    by (simp add: binary64_def Let_def ilog2_minus rne_minus)
qed

text \<open>The spacing of the doubles around a non-zero real, as a power of two.\<close>

lemma binary64_pos_eq:
  "x \<noteq> 0 \<Longrightarrow>
   binary64 x = of_int (rne (x / pow2 (max (ilog2 x) (- 1022) - 52))) * pow2 (max (ilog2 x) (- 1022) - 52)"
  by (simp add: binary64_def Let_def)

lemma binary64_nonneg:
  assumes "0 \<le> x"
  shows "0 \<le> binary64 x"
proof (cases "x = 0")
  case True
  then show ?thesis by (simp add: binary64_def)
next
  case False
  let ?q = "pow2 (max (ilog2 x) (- 1022) - 52)"
  have "0 \<le> x / ?q" using assms pow2_pos [of "max (ilog2 x) (- 1022) - 52"] by simp
  then have "rne 0 \<le> rne (x / ?q)" by (rule rne_mono)
  then have "0 \<le> rne (x / ?q)" using rne_of_int [of 0] by simp
  then have "0 \<le> of_int (rne (x / ?q)) * ?q"
    using pow2_pos [of "max (ilog2 x) (- 1022) - 52"] by simp
  with False show ?thesis by (simp add: binary64_pos_eq)
qed

lemma binary64_mono_pos:
  assumes "0 < x" and "x \<le> y"
  shows "binary64 x \<le> binary64 y"
proof -
  define ex where "ex = max (ilog2 x) (- 1022) - 52"
  define ey where "ey = max (ilog2 y) (- 1022) - 52"
  have x0: "x \<noteq> 0" and y0: "y \<noteq> 0" and ypos: "0 < y" using assms by auto
  have bx: "binary64 x = of_int (rne (x / pow2 ex)) * pow2 ex"
    using x0 by (simp add: binary64_pos_eq ex_def)
  have by': "binary64 y = of_int (rne (y / pow2 ey)) * pow2 ey"
    using y0 by (simp add: binary64_pos_eq ey_def)
  have il: "ilog2 x \<le> ilog2 y" using assms by (intro ilog2_mono) auto
  then have le: "ex \<le> ey" by (simp add: ex_def ey_def)
  show ?thesis
  proof (cases "ex = ey")
    case True
    have "x / pow2 ey \<le> y / pow2 ey" using assms pow2_pos [of ey] by (simp add: divide_right_mono)
    then have "rne (x / pow2 ey) \<le> rne (y / pow2 ey)" by (rule rne_mono)
    then have "(of_int (rne (x / pow2 ey)) :: real) \<le> of_int (rne (y / pow2 ey))" by simp
    then have "of_int (rne (x / pow2 ey)) * pow2 ey \<le> of_int (rne (y / pow2 ey)) * pow2 ey"
      using pow2_pos [of ey] by (simp only: mult_le_cancel_right_pos)
    with bx by' True show ?thesis by simp
  next
    case False
    with le have lt: "ex < ey" by simp
    define L where "L = ilog2 y"
    from lt have L: "ey = L - 52" and Lx: "ilog2 x < L" and L22: "- 1022 < L"
      by (auto simp: ex_def ey_def L_def max_def split: if_splits)
    from ilog2_bounds [OF y0] ypos have ylo: "pow2 L \<le> y" by (simp add: L_def)
    from ilog2_bounds [OF x0] assms(1) have "x < pow2 (ilog2 x + 1)" by simp
    also have "\<dots> \<le> pow2 L" using Lx by (simp add: pow2_le_iff)
    finally have xhi: "x \<le> pow2 L" by simp
    have d0: "0 \<le> L - ex" using lt L by simp
    have pL: "pow2 L = pow2 (L - ex) * pow2 ex" using pow2_add [of "L - ex" ex] by simp
    have int1: "pow2 (L - ex) = of_int (2 ^ nat (L - ex))" using d0 by (rule pow2_of_int)
    have "x / pow2 ex \<le> pow2 L / pow2 ex" using xhi pow2_pos [of ex] by (simp add: divide_right_mono)
    also have "\<dots> = of_int (2 ^ nat (L - ex))" using pL int1 pow2_pos [of ex] by simp
    finally have "rne (x / pow2 ex) \<le> rne (of_int (2 ^ nat (L - ex)))" by (rule rne_mono)
    then have "rne (x / pow2 ex) \<le> 2 ^ nat (L - ex)" by (simp only: rne_of_int)
    then have "(of_int (rne (x / pow2 ex)) :: real) \<le> of_int (2 ^ nat (L - ex))"
      by (simp only: of_int_le_iff)
    then have "of_int (rne (x / pow2 ex)) * pow2 ex \<le> of_int (2 ^ nat (L - ex)) * pow2 ex"
      using pow2_pos [of ex] by (simp only: mult_le_cancel_right_pos)
    with bx pL int1 have 1: "binary64 x \<le> pow2 L" by simp
    have pL': "pow2 L = pow2 52 * pow2 ey" using pow2_add [of 52 ey] L by simp
    have int2: "pow2 52 = of_int (2 ^ nat 52)" by (rule pow2_of_int) simp
    have "pow2 L / pow2 ey \<le> y / pow2 ey" using ylo pow2_pos [of ey] by (simp add: divide_right_mono)
    moreover have "pow2 L / pow2 ey = of_int (2 ^ nat 52)" using pL' int2 pow2_pos [of ey] by simp
    ultimately have "of_int (2 ^ nat 52) \<le> y / pow2 ey" by simp
    then have "rne (of_int (2 ^ nat 52)) \<le> rne (y / pow2 ey)" by (rule rne_mono)
    then have "2 ^ nat 52 \<le> rne (y / pow2 ey)" by (simp only: rne_of_int)
    then have "(of_int (2 ^ nat 52) :: real) \<le> of_int (rne (y / pow2 ey))"
      by (simp only: of_int_le_iff)
    then have "of_int (2 ^ nat 52) * pow2 ey \<le> of_int (rne (y / pow2 ey)) * pow2 ey"
      using pow2_pos [of ey] by (simp only: mult_le_cancel_right_pos)
    with by' pL' int2 have 2: "pow2 L \<le> binary64 y" by simp
    from 1 2 show ?thesis by simp
  qed
qed

lemma mono_binary64: "mono binary64"
proof (rule monoI)
  fix x y :: real
  assume le: "x \<le> y"
  show "binary64 x \<le> binary64 y"
  proof (cases "0 < x")
    case True
    then show ?thesis using le by (rule binary64_mono_pos)
  next
    case nx: False
    show ?thesis
    proof (cases "0 \<le> y")
      case True
      from nx have "0 \<le> - x" by simp
      then have "0 \<le> binary64 (- x)" by (rule binary64_nonneg)
      then have "binary64 x \<le> 0" by (simp add: binary64_minus)
      moreover have "0 \<le> binary64 y" using True by (rule binary64_nonneg)
      ultimately show ?thesis by simp
    next
      case False
      then have "0 < - y" "- y \<le> - x" using le by simp_all
      then have "binary64 (- y) \<le> binary64 (- x)" by (rule binary64_mono_pos)
      then show ?thesis by (simp add: binary64_minus)
    qed
  qed
qed

text \<open>
  The rounding error: a real of magnitude at most \<open>2 ^ k\<close> is rounded to a double at most
  \<open>2 ^ (k - 53)\<close> away, from the smallest normal binade upwards.
\<close>

lemma binary64_error:
  assumes "\<bar>x\<bar> \<le> pow2 k" and "- 1022 \<le> k"
  shows "\<bar>binary64 x - x\<bar> \<le> pow2 (k - 53)"
proof (cases "x = 0")
  case True
  then show ?thesis using pow2_pos [of "k - 53"] by (simp add: binary64_def)
next
  case False
  define e where "e = max (ilog2 x) (- 1022) - 52"
  have "pow2 (ilog2 x) \<le> pow2 k" using ilog2_bounds [OF False] assms(1) by linarith
  then have "ilog2 x \<le> k" by (simp only: pow2_le_iff)
  with assms(2) have ek: "e - 1 \<le> k - 53" by (simp add: e_def)
  have b: "binary64 x = of_int (rne (x / pow2 e)) * pow2 e"
    using False by (simp add: binary64_pos_eq e_def)
  have "binary64 x - x = (of_int (rne (x / pow2 e)) - x / pow2 e) * pow2 e"
    using pow2_pos [of e] by (simp add: b field_simps)
  then have "\<bar>binary64 x - x\<bar> = \<bar>of_int (rne (x / pow2 e)) - x / pow2 e\<bar> * pow2 e"
    using pow2_pos [of e] by (simp add: abs_mult)
  also have "\<dots> \<le> 1 / 2 * pow2 e"
    using rne_error [of "x / pow2 e"] pow2_pos [of e] by (simp only: mult_le_cancel_right_pos)
  also have "\<dots> = pow2 (e - 1)" using pow2_add [of "e - 1" 1] by (simp add: pow2_def)
  also have "\<dots> \<le> pow2 (k - 53)" using ek by (simp add: pow2_le_iff)
  finally show ?thesis .
qed

subsection \<open>The matching loop\<close>

lemma fold_pick_in: "fold (\<lambda>y best. if cmp best y then y else best) xs x \<in> insert x (set xs)"
  by (induction xs arbitrary: x) auto

lemma pq_top_in: "q \<noteq> [] \<Longrightarrow> pq_top cmp q \<in> set q"
  using fold_pick_in [of cmp "tl q" "hd q"] by (cases q) (auto simp: pq_top_def)

lemma length_pq_pop: "q \<noteq> [] \<Longrightarrow> Suc (length (pq_pop cmp q)) = length q"
proof -
  assume "q \<noteq> []"
  then have "pq_top cmp q \<in> set q" by (rule pq_top_in)
  then show ?thesis
    using length_pos_if_in_set [of "pq_top cmp q" q] by (simp add: pq_pop_def length_remove1)
qed

text \<open>The payment zeroes the creditor or the debtor, whichever has the smaller magnitude.\<close>

lemma settle_step_drops:
  assumes z: "rnd 0 = 0" and e: "0 \<le> EPS rnd"
  shows "fst (settle_step rnd (C, D, txns)) = pq_pop CmpCred C \<or>
         fst (snd (settle_step rnd (C, D, txns))) = pq_pop CmpDebt D"
proof (cases "amt (pq_top CmpCred C) \<le> - amt (pq_top CmpDebt D)")
  case True
  then have "min (amt (pq_top CmpCred C)) (- amt (pq_top CmpDebt D)) = amt (pq_top CmpCred C)"
    by simp
  with z e show ?thesis by (simp add: settle_step_def Let_def)
next
  case False
  then have "min (amt (pq_top CmpCred C)) (- amt (pq_top CmpDebt D)) = - amt (pq_top CmpDebt D)"
    by simp
  with z e show ?thesis by (simp add: settle_step_def Let_def)
qed

lemma settle_step_lengths:
  "length (fst (settle_step rnd (C, D, txns))) \<le> Suc (length (pq_pop CmpCred C)) \<and>
   length (fst (snd (settle_step rnd (C, D, txns)))) \<le> Suc (length (pq_pop CmpDebt D)) \<and>
   length (fst (settle_step rnd (C, D, txns))) \<ge> length (pq_pop CmpCred C) \<and>
   length (fst (snd (settle_step rnd (C, D, txns)))) \<ge> length (pq_pop CmpDebt D)"
  by (simp add: settle_step_def Let_def)

lemma settle_step_shrinks:
  assumes z: "rnd 0 = 0" and e: "0 \<le> EPS rnd" and ne: "C \<noteq> []" "D \<noteq> []"
  shows "length (fst (settle_step rnd (C, D, txns))) + length (fst (snd (settle_step rnd (C, D, txns))))
         < length C + length D"
proof -
  have lc: "Suc (length (pq_pop CmpCred C)) = length C"
    and ld: "Suc (length (pq_pop CmpDebt D)) = length D"
    using ne by (simp_all add: length_pq_pop)
  from settle_step_drops [OF z e, of C D txns] settle_step_lengths [of rnd C D txns] lc ld
  show ?thesis by auto
qed

lemma settle_step_txns:
  "length (snd (snd (settle_step rnd (C, D, txns)))) \<le> Suc (length txns)"
  by (simp add: settle_step_def Let_def)

lemma settle_loop_unfold:
  "C \<noteq> [] \<Longrightarrow> D \<noteq> [] \<Longrightarrow>
   settle_loop rnd C D txns =
   settle_loop rnd (fst (settle_step rnd (C, D, txns))) (fst (snd (settle_step rnd (C, D, txns))))
     (snd (snd (settle_step rnd (C, D, txns))))"
  by (subst settle_loop.simps) (simp add: case_prod_beta)

lemma settle_loop_stop: "C = [] \<or> D = [] \<Longrightarrow> settle_loop rnd C D txns = Some txns"
  by (subst settle_loop.simps) auto

lemma settle_loop_returns:
  assumes z: "rnd 0 = 0" and e: "0 \<le> EPS rnd"
  shows "\<exists>r. settle_loop rnd C D txns = Some r"
proof (induction "length C + length D" arbitrary: C D txns rule: less_induct)
  case less
  show ?case
  proof (cases "C \<noteq> [] \<and> D \<noteq> []")
    case False
    then show ?thesis by (simp add: settle_loop_stop)
  next
    case True
    with settle_step_shrinks [OF z e, of C D txns] less show ?thesis
      by (simp add: settle_loop_unfold)
  qed
qed

lemma settle_loop_count:
  assumes z: "rnd 0 = 0" and e: "0 \<le> EPS rnd"
  shows "settle_loop rnd C D txns = Some r \<Longrightarrow>
         (if C = [] \<or> D = [] then r = txns
          else Suc (length r) \<le> length txns + length C + length D)"
proof (induction "length C + length D" arbitrary: C D txns rule: less_induct)
  case less
  show ?case
  proof (cases "C \<noteq> [] \<and> D \<noteq> []")
    case False
    with less.prems show ?thesis by (simp add: settle_loop_stop)
  next
    case True
    let ?C = "fst (settle_step rnd (C, D, txns))"
    let ?D = "fst (snd (settle_step rnd (C, D, txns)))"
    let ?t = "snd (snd (settle_step rnd (C, D, txns)))"
    from settle_step_shrinks [OF z e, of C D txns] True
    have sh: "length ?C + length ?D < length C + length D" by simp
    from less.prems True have r: "settle_loop rnd ?C ?D ?t = Some r"
      by (simp add: settle_loop_unfold)
    note ih = less.hyps [OF sh r]
    have t1: "length ?t \<le> Suc (length txns)" by (rule settle_step_txns)
    have two: "2 \<le> length C + length D" using True by (cases C; cases D) auto
    show ?thesis
    proof (cases "?C = [] \<or> ?D = []")
      case True
      with ih have "r = ?t" by simp
      with t1 two \<open>C \<noteq> [] \<and> D \<noteq> []\<close> show ?thesis by auto
    next
      case False
      with ih have "Suc (length r) \<le> length ?t + length ?C + length ?D" by simp
      with t1 sh \<open>C \<noteq> [] \<and> D \<noteq> []\<close> show ?thesis by auto
    qed
  qed
qed

text \<open>
  Claim C9. \<^verbatim>\<open>settle\<close> returns on every book, and so does the matching loop from every pair
  of queues. In one pass through the loop body the payment \<open>min (amt c) (- amt d)\<close> leaves
  the popped creditor or the popped debtor with a residual within \<open>EPS\<close> of zero, that node
  is not pushed back, and the two queues together get shorter. The rounding only has to
  keep zero and give a non-negative \<open>EPS\<close>, as \<open>binary64\<close> and \<open>exact\<close> do.
\<close>

theorem settle_terminates:
  assumes "rnd 0 = 0" and "0 \<le> EPS rnd"
  shows "(\<exists>r. settle rnd b = Some r) \<and>
         (\<exists>r. settle_loop rnd C D txns = Some r) \<and>
         (C \<noteq> [] \<and> D \<noteq> [] \<longrightarrow>
            (let c = pq_top CmpCred C; d = pq_top CmpDebt D; pay = min (amt c) (- amt d)
             in \<bar>rnd (amt c - pay)\<bar> \<le> EPS rnd \<or> \<bar>rnd (amt d + pay)\<bar> \<le> EPS rnd) \<and>
            (fst (settle_step rnd (C, D, txns)) = pq_pop CmpCred C \<or>
             fst (snd (settle_step rnd (C, D, txns))) = pq_pop CmpDebt D) \<and>
            length (fst (settle_step rnd (C, D, txns))) +
              length (fst (snd (settle_step rnd (C, D, txns)))) < length C + length D)"
proof (intro conjI impI)
  show "\<exists>r. settle rnd b = Some r"
    unfolding settle_def settle_net_def by (rule settle_loop_returns [OF assms])
  show "\<exists>r. settle_loop rnd C D txns = Some r" by (rule settle_loop_returns [OF assms])
  show "let c = pq_top CmpCred C; d = pq_top CmpDebt D; pay = min (amt c) (- amt d)
        in \<bar>rnd (amt c - pay)\<bar> \<le> EPS rnd \<or> \<bar>rnd (amt d + pay)\<bar> \<le> EPS rnd"
  proof (cases "amt (pq_top CmpCred C) \<le> - amt (pq_top CmpDebt D)")
    case True
    then have "min (amt (pq_top CmpCred C)) (- amt (pq_top CmpDebt D)) = amt (pq_top CmpCred C)"
      by simp
    with assms show ?thesis by (simp add: Let_def)
  next
    case False
    then have "min (amt (pq_top CmpCred C)) (- amt (pq_top CmpDebt D)) = - amt (pq_top CmpDebt D)"
      by simp
    with assms show ?thesis by (simp add: Let_def)
  qed
  show "fst (settle_step rnd (C, D, txns)) = pq_pop CmpCred C \<or>
        fst (snd (settle_step rnd (C, D, txns))) = pq_pop CmpDebt D"
    by (rule settle_step_drops [OF assms])
next
  assume "C \<noteq> [] \<and> D \<noteq> []"
  then show "length (fst (settle_step rnd (C, D, txns))) +
      length (fst (snd (settle_step rnd (C, D, txns)))) < length C + length D"
    using settle_step_shrinks [OF assms, of C D txns] by simp
qed

theorem settle_terminates_witness:
  "binary64 0 = 0 \<and> 0 \<le> EPS binary64 \<and>
   [\<lparr>name = ''A'', amt = 10\<rparr>] \<noteq> [] \<and> [\<lparr>name = ''B'', amt = - 10\<rparr>] \<noteq> [] \<and>
   (\<exists>r. settle binary64 \<lparr>users = [''A'', ''B''], expenses = []\<rparr> = Some r) \<and>
   (\<exists>r. settle_loop binary64 [\<lparr>name = ''A'', amt = 10\<rparr>] [\<lparr>name = ''B'', amt = - 10\<rparr>] [] = Some r) \<and>
   length (fst (settle_step binary64 ([\<lparr>name = ''A'', amt = 10\<rparr>], [\<lparr>name = ''B'', amt = - 10\<rparr>], []))) +
     length (fst (snd (settle_step binary64 ([\<lparr>name = ''A'', amt = 10\<rparr>], [\<lparr>name = ''B'', amt = - 10\<rparr>], []))))
   < length [\<lparr>name = ''A'', amt = 10 :: real\<rparr>] + length [\<lparr>name = ''B'', amt = - 10 :: real\<rparr>]"
  using settle_terminates [OF binary64_zero EPS_binary64_nonneg,
      of "\<lparr>users = [''A'', ''B''], expenses = []\<rparr>"
         "[\<lparr>name = ''A'', amt = 10\<rparr>]" "[\<lparr>name = ''B'', amt = - 10\<rparr>]" "[]"]
    binary64_zero EPS_binary64_nonneg
  by simp

text \<open>
  Claim C8, as the code has it. With at least one creditor or debtor, \<^verbatim>\<open>settle\<close> produces at
  most (creditors + debtors - 1) transactions; with none it produces no transaction (and
  the bound of the claim would be \<open>- 1\<close>). The counts are integers, so that the subtraction
  is not truncated.
\<close>

theorem settle_count_bound:
  assumes "rnd 0 = 0" and "0 \<le> EPS rnd"
  shows "\<exists>txns. settle_net rnd net = Some txns \<and>
           (cred rnd net \<noteq> [] \<or> debt rnd net \<noteq> [] \<longrightarrow>
              int (length txns) \<le> int (length (cred rnd net)) + int (length (debt rnd net)) - 1) \<and>
           (cred rnd net = [] \<and> debt rnd net = [] \<longrightarrow> txns = [])"
proof -
  from settle_loop_returns [OF assms] obtain txns
    where r: "settle_loop rnd (cred rnd net) (debt rnd net) [] = Some txns" by blast
  from settle_loop_count [OF assms r]
  have "(cred rnd net \<noteq> [] \<or> debt rnd net \<noteq> [] \<longrightarrow>
              int (length txns) \<le> int (length (cred rnd net)) + int (length (debt rnd net)) - 1) \<and>
           (cred rnd net = [] \<and> debt rnd net = [] \<longrightarrow> txns = [])"
    by (cases "cred rnd net"; cases "debt rnd net") (auto split: if_splits)
  with r show ?thesis by (simp add: settle_net_def)
qed

theorem settle_count_bound_witness:
  "binary64 0 = 0 \<and> 0 \<le> EPS binary64 \<and> cred binary64 [(''A'', 10), (''B'', - 10)] \<noteq> [] \<and>
   (\<exists>txns. settle_net binary64 [(''A'', 10), (''B'', - 10)] = Some txns \<and>
      int (length txns) \<le> int (length (cred binary64 [(''A'', 10), (''B'', - 10)])) +
        int (length (debt binary64 [(''A'', 10), (''B'', - 10)])) - 1)"
proof -
  have c: "cred binary64 [(''A'', 10), (''B'', - 10)] \<noteq> []"
    by (simp add: fp_eval model_eval)
  from settle_count_bound [OF binary64_zero EPS_binary64_nonneg, of "[(''A'', 10), (''B'', - 10)]"] c
    binary64_zero EPS_binary64_nonneg
  show ?thesis by blast
qed

theorem settle_count_counterexample:
  "settle binary64 \<lparr>users = [''A'', ''B''], expenses = []\<rparr> = Some [] \<and>
   cred binary64 (computeNet binary64 \<lparr>users = [''A'', ''B''], expenses = []\<rparr>) = [] \<and>
   debt binary64 (computeNet binary64 \<lparr>users = [''A'', ''B''], expenses = []\<rparr>) = [] \<and>
   \<not> int (length ([] :: txn list))
       \<le> int (length (cred binary64 (computeNet binary64 \<lparr>users = [''A'', ''B''], expenses = []\<rparr>))) +
         int (length (debt binary64 (computeNet binary64 \<lparr>users = [''A'', ''B''], expenses = []\<rparr>))) - 1"
  by (simp add: fp_eval model_eval)


subsection \<open>The expense recorder\<close>

lemma first_unknown_None: "first_unknown b ps = None \<longleftrightarrow> (\<forall>q \<in> set ps. hasUser b q)"
  by (induction ps) auto

lemma first_unknown_Some: "first_unknown b ps = Some q \<Longrightarrow> q \<in> set ps \<and> \<not> hasUser b q"
  by (induction ps) (auto split: if_splits)

lemma exact_tokens_valid:
  "valid_tokens rnd b ts \<Longrightarrow>
   \<exists>e'. exact_tokens rnd b ts e s = Inr (e', sum_tokens rnd s ts) \<and>
         payer e' = payer e \<and> amount e' = amount e"
proof (induction ts arbitrary: e s)
  case Nil
  then show ?case by simp
next
  case (Cons t ts)
  from Cons.prems obtain n v where pt: "parse_token rnd t = Some (n, v)" and hu: "hasUser b n"
    and rest: "valid_tokens rnd b ts"
    by (auto simp: valid_tokens_def split: option.splits)
  from pt obtain pos where fc: "find_colon t = Some pos"
    and sd: "stod rnd (drop (pos + 1) t) = Converted v" and n: "n = take pos t"
    by (auto simp: parse_token_def split: option.splits stod_result.splits)
  from Cons.IH [OF rest, of "e\<lparr>shares := map_modify (\<lambda>x. rnd (x + v)) n (shares e)\<rparr>" "rnd (s + v)"]
  show ?case using fc sd n hu pt by simp
qed

lemma exact_tokens_Inr:
  "exact_tokens rnd b ts e s = Inr (e', s') \<Longrightarrow> valid_tokens rnd b ts \<and> s' = sum_tokens rnd s ts"
proof (induction ts arbitrary: e s)
  case Nil
  then show ?case by (simp add: valid_tokens_def)
next
  case (Cons t ts)
  from Cons.prems obtain pos v where fc: "find_colon t = Some pos"
    and sd: "stod rnd (drop (pos + 1) t) = Converted v" and hu: "hasUser b (take pos t)"
    and rest: "exact_tokens rnd b ts (e\<lparr>shares := map_modify (\<lambda>x. rnd (x + v)) (take pos t) (shares e)\<rparr>)
                 (rnd (s + v)) = Inr (e', s')"
    by (auto split: option.splits stod_result.splits if_splits)
  from Cons.IH [OF rest] fc sd hu show ?case
    by (simp add: valid_tokens_def parse_token_def)
qed

lemma exact_tokens_Inl: "exact_tokens rnd b ts e s = Inl r \<Longrightarrow> \<not> is_share_mismatch r"
proof (induction ts arbitrary: e s)
  case Nil
  then show ?case by simp
next
  case (Cons t ts)
  then show ?case
    by (auto simp: is_share_mismatch_def split: option.splits stod_result.splits if_splits)
qed

text \<open>
  Claim C10. Neither construction operation looks at the sign of the amount or of a share.
  For a registered payer and an amount that is zero or negative, \<^verbatim>\<open>addExpenseEqual\<close> succeeds
  on every non-empty list of registered participants, and \<^verbatim>\<open>addExpenseExact\<close> succeeds on
  every non-empty list of well-formed tokens (of any sign) whose sum is within the tolerance
  of the amount; both append an expense with that payer and that amount.
\<close>

theorem no_positivity_check:
  assumes "hasUser b p" and "a \<le> 0"
  shows "(ps \<noteq> [] \<and> list_all (hasUser b) ps \<longrightarrow>
            (\<exists>e. addExpenseEqual rnd b p a ps = (Success, b\<lparr>expenses := expenses b @ [e]\<rparr>) \<and>
                 payer e = p \<and> amount e = a)) \<and>
         (ts \<noteq> [] \<and> valid_tokens rnd b ts \<and>
          \<not> \<bar>rnd (token_share_sum rnd ts - a)\<bar> > share_tolerance rnd \<longrightarrow>
            (\<exists>e. addExpenseExact rnd b p a ts = (Success, b\<lparr>expenses := expenses b @ [e]\<rparr>) \<and>
                 payer e = p \<and> amount e = a))"
proof (intro conjI impI)
  assume "ps \<noteq> [] \<and> list_all (hasUser b) ps"
  then have "ps \<noteq> []" and "first_unknown b ps = None"
    by (simp_all add: first_unknown_None list_all_iff)
  with assms(1) have "addExpenseEqual rnd b p a ps =
      (Success, b\<lparr>expenses := expenses b @ [\<lparr>payer = p, amount = a,
         shares = fold (\<lambda>q m. map_modify (\<lambda>v. rnd (v + rnd (a / rnd (of_nat (length ps))))) q m) ps []\<rparr>]\<rparr>)"
    by (simp add: addExpenseEqual_def Let_def)
  then show "\<exists>e. addExpenseEqual rnd b p a ps = (Success, b\<lparr>expenses := expenses b @ [e]\<rparr>) \<and>
                 payer e = p \<and> amount e = a"
    by (intro exI conjI) (assumption, simp_all)
next
  assume h: "ts \<noteq> [] \<and> valid_tokens rnd b ts \<and>
          \<not> \<bar>rnd (token_share_sum rnd ts - a)\<bar> > share_tolerance rnd"
  then obtain e' where
    "exact_tokens rnd b ts \<lparr>payer = p, amount = a, shares = []\<rparr> 0 = Inr (e', sum_tokens rnd 0 ts)"
    "payer e' = p" "amount e' = a"
    using exact_tokens_valid [of rnd b ts "\<lparr>payer = p, amount = a, shares = []\<rparr>" 0] by auto
  with h assms(1) show "\<exists>e. addExpenseExact rnd b p a ts = (Success, b\<lparr>expenses := expenses b @ [e]\<rparr>) \<and>
                 payer e = p \<and> amount e = a"
    by (auto simp: addExpenseExact_def token_share_sum_def)
qed

theorem no_positivity_check_witness:
  "hasUser \<lparr>users = [''A'', ''B''], expenses = []\<rparr> ''A'' \<and> (- 5 :: real) \<le> 0 \<and>
   [''A'', ''B''] \<noteq> [] \<and> list_all (hasUser \<lparr>users = [''A'', ''B''], expenses = []\<rparr>) [''A'', ''B''] \<and>
   [''A:-2.5'', ''B:-2.5''] \<noteq> [] \<and>
   valid_tokens binary64 \<lparr>users = [''A'', ''B''], expenses = []\<rparr> [''A:-2.5'', ''B:-2.5''] \<and>
   \<not> \<bar>binary64 (token_share_sum binary64 [''A:-2.5'', ''B:-2.5''] - (- 5))\<bar> > share_tolerance binary64 \<and>
   (\<exists>e. addExpenseEqual binary64 \<lparr>users = [''A'', ''B''], expenses = []\<rparr> ''A'' (- 5) [''A'', ''B''] =
          (Success, \<lparr>users = [''A'', ''B''], expenses = []\<rparr>
                      \<lparr>expenses := expenses \<lparr>users = [''A'', ''B''], expenses = []\<rparr> @ [e]\<rparr>) \<and>
        payer e = ''A'' \<and> amount e = - 5) \<and>
   (\<exists>e. addExpenseExact binary64 \<lparr>users = [''A'', ''B''], expenses = []\<rparr> ''A'' (- 5) [''A:-2.5'', ''B:-2.5''] =
          (Success, \<lparr>users = [''A'', ''B''], expenses = []\<rparr>
                      \<lparr>expenses := expenses \<lparr>users = [''A'', ''B''], expenses = []\<rparr> @ [e]\<rparr>) \<and>
        payer e = ''A'' \<and> amount e = - 5)"
proof -
  let ?b = "\<lparr>users = [''A'', ''B''], expenses = []\<rparr>"
  have 1: "hasUser ?b ''A''" by (simp add: model_eval)
  have 2: "(- 5 :: real) \<le> 0" by simp
  have 3: "[''A'', ''B''] \<noteq> [] \<and> list_all (hasUser ?b) [''A'', ''B'']" by (simp add: model_eval)
  have 4: "[''A:-2.5'', ''B:-2.5''] \<noteq> [] \<and> valid_tokens binary64 ?b [''A:-2.5'', ''B:-2.5''] \<and>
   \<not> \<bar>binary64 (token_share_sum binary64 [''A:-2.5'', ''B:-2.5''] - (- 5))\<bar> > share_tolerance binary64"
    by (simp add: fp_eval stod_eval model_eval)
  from no_positivity_check [OF 1 2, of "[''A'', ''B'']" binary64 "[''A:-2.5'', ''B:-2.5'']"] 1 2 3 4
  show ?thesis by blast
qed

text \<open>
  Claim C7, as the code has it. The share-sum check is the last one. A call reports the
  mismatch only if the sum of the shares differs from the amount by more than the tolerance;
  and when the payer is registered, the token list is not empty and every token is
  well-formed and names a registered user, it reports the mismatch exactly in that case. A
  call that fails an earlier check reports that check's error, whatever the shares sum to.
\<close>

theorem share_mismatch_iff:
  "(is_share_mismatch (fst (addExpenseExact rnd b p a ts)) \<longrightarrow>
      \<bar>rnd (token_share_sum rnd ts - a)\<bar> > share_tolerance rnd) \<and>
   (hasUser b p \<and> ts \<noteq> [] \<and> valid_tokens rnd b ts \<longrightarrow>
      (is_share_mismatch (fst (addExpenseExact rnd b p a ts)) \<longleftrightarrow>
       \<bar>rnd (token_share_sum rnd ts - a)\<bar> > share_tolerance rnd))"
proof (intro conjI impI)
  assume m: "is_share_mismatch (fst (addExpenseExact rnd b p a ts))"
  show "\<bar>rnd (token_share_sum rnd ts - a)\<bar> > share_tolerance rnd"
  proof (cases "exact_tokens rnd b ts \<lparr>payer = p, amount = a, shares = []\<rparr> 0")
    case (Inl r)
    with m exact_tokens_Inl [OF Inl] show ?thesis
      by (auto simp: addExpenseExact_def is_share_mismatch_def split: if_splits)
  next
    case (Inr es)
    obtain e' s' where es: "es = (e', s')" by (cases es)
    with Inr exact_tokens_Inr [of rnd b ts _ 0 e' s'] have "s' = sum_tokens rnd 0 ts" by simp
    with m Inr es show ?thesis
      by (auto simp: addExpenseExact_def is_share_mismatch_def token_share_sum_def split: if_splits)
  qed
next
  assume h: "hasUser b p \<and> ts \<noteq> [] \<and> valid_tokens rnd b ts"
  then obtain e' where
    "exact_tokens rnd b ts \<lparr>payer = p, amount = a, shares = []\<rparr> 0 = Inr (e', sum_tokens rnd 0 ts)"
    using exact_tokens_valid [of rnd b ts "\<lparr>payer = p, amount = a, shares = []\<rparr>" 0] by auto
  with h show "is_share_mismatch (fst (addExpenseExact rnd b p a ts)) \<longleftrightarrow>
       \<bar>rnd (token_share_sum rnd ts - a)\<bar> > share_tolerance rnd"
    by (auto simp: addExpenseExact_def is_share_mismatch_def token_share_sum_def)
qed

theorem share_mismatch_iff_witness:
  "hasUser \<lparr>users = [''A'', ''B''], expenses = []\<rparr> ''A'' \<and> [''B:10.02''] \<noteq> [] \<and>
   valid_tokens binary64 \<lparr>users = [''A'', ''B''], expenses = []\<rparr> [''B:10.02''] \<and>
   is_share_mismatch (fst (addExpenseExact binary64 \<lparr>users = [''A'', ''B''], expenses = []\<rparr> ''A'' 10 [''B:10.02''])) \<and>
   \<bar>binary64 (token_share_sum binary64 [''B:10.02''] - 10)\<bar> > share_tolerance binary64"
proof -
  let ?b = "\<lparr>users = [''A'', ''B''], expenses = []\<rparr>"
  have 1: "hasUser ?b ''A'' \<and> [''B:10.02''] \<noteq> [] \<and> valid_tokens binary64 ?b [''B:10.02'']"
    by (simp add: fp_eval stod_eval model_eval)
  have 2: "\<bar>binary64 (token_share_sum binary64 [''B:10.02''] - 10)\<bar> > share_tolerance binary64"
    by (simp add: fp_eval stod_eval model_eval)
  from share_mismatch_iff [of binary64 ?b "''A''" 10 "[''B:10.02'']"] 1 2
  show ?thesis by blast
qed

theorem share_mismatch_counterexample:
  "\<bar>binary64 (token_share_sum binary64 [''A:5''] - 10)\<bar> > share_tolerance binary64 \<and>
   addExpenseExact binary64 \<lparr>users = [''A''], expenses = []\<rparr> ''Z'' 10 [''A:5''] =
     (Failure (Unknown_payer ''Z''), \<lparr>users = [''A''], expenses = []\<rparr>) \<and>
   \<not> is_share_mismatch (fst (addExpenseExact binary64 \<lparr>users = [''A''], expenses = []\<rparr> ''Z'' 10 [''A:5'']))"
  by (simp add: fp_eval stod_eval model_eval)

text \<open>
  Claim C5 on the code. A token with a colon whose part after the colon does not start a
  number makes \<^verbatim>\<open>stod\<close> throw \<^verbatim>\<open>std::invalid_argument\<close>: the call does not return an error,
  the exception leaves it, before the participant's name is even looked up.
\<close>

theorem malformed_number_throws:
  "addExpenseExact binary64 \<lparr>users = [''A''], expenses = []\<rparr> ''A'' 10 [''A:abc''] =
     (Uncaught Invalid_argument, \<lparr>users = [''A''], expenses = []\<rparr>) \<and>
   addExpenseExact binary64 \<lparr>users = [''A''], expenses = []\<rparr> ''A'' 10 [''Z:''] =
     (Uncaught Invalid_argument, \<lparr>users = [''A''], expenses = []\<rparr>) \<and>
   addExpenseExact binary64 \<lparr>users = [''A''], expenses = []\<rparr> ''A'' 10 [''A10''] =
     (Failure (Bad_token ''A10''), \<lparr>users = [''A''], expenses = []\<rparr>)"
  by (simp add: fp_eval stod_eval model_eval)


lemmas example_books = book_AB_def book_uneven_def book_123_def book_321_def

lemma book_uneven_eval:
  "book_uneven = \<lparr>users = [''A'', ''B''],
      expenses = [\<lparr>payer = ''A'', amount = 10, shares = [(''B'', 5632314283980227 / 562949953421312)]\<rparr>]\<rparr>"
  by (simp add: example_books fp_eval stod_eval model_eval)

lemma net_uneven: "computeNet binary64 book_uneven = [(''A'', 10), (''B'', - (5632314283980227 / 562949953421312))]"
  by (simp add: book_uneven_eval fp_eval model_eval)

lemma settle_uneven: "settle binary64 book_uneven = Some [(''B'', ''A'', 10)]"
  by (simp add: settle_def net_uneven) (simp add: fp_eval model_eval)

theorem settle_zeroes_counterexample:
  "settle binary64 book_uneven = Some [(''B'', ''A'', 10)] \<and>
   computeNet binary64 book_uneven = [(''A'', 10), (''B'', - (5632314283980227 / 562949953421312))] \<and>
   fold (apply_txn_stated binary64) [(''B'', ''A'', 10)] (computeNet binary64 book_uneven) =
     [(''A'', 20), (''B'', - (2815453454548337 / 140737488355328))] \<and>
   \<not> all_settled binary64 (fold (apply_txn_stated binary64) [(''B'', ''A'', 10)] (computeNet binary64 book_uneven)) \<and>
   fold (apply_txn binary64) [(''B'', ''A'', 10)] (computeNet binary64 book_uneven) =
     [(''A'', 0), (''B'', - (2814749767107 / 562949953421312))] \<and>
   \<not> all_settled binary64 (fold (apply_txn binary64) [(''B'', ''A'', 10)] (computeNet binary64 book_uneven))"
  by (simp add: settle_uneven net_uneven apply_txn_def apply_txn_stated_def all_settled_def fp_eval)




lemma net_123:
  "computeNet binary64 book_123 =
     [(''A'', 1351079888211149 / 2251799813685248), (''B'', - (1351079888211149 / 2251799813685248))]"
  by (simp add: example_books fp_eval model_eval)

lemma net_321:
  "computeNet binary64 book_321 =
     [(''A'', 5404319552844595 / 9007199254740992), (''B'', - (5404319552844595 / 9007199254740992))]"
  by (simp add: example_books fp_eval model_eval)

lemma books_123_321:
  "users book_123 = users book_321 \<and> mset (expenses book_123) = mset (expenses book_321)"
  by (simp add: example_books fp_eval model_eval)

theorem order_counterexample:
  "users book_123 = users book_321 \<and> mset (expenses book_123) = mset (expenses book_321) \<and>
   computeNet binary64 book_123 =
     [(''A'', 1351079888211149 / 2251799813685248), (''B'', - (1351079888211149 / 2251799813685248))] \<and>
   computeNet binary64 book_321 =
     [(''A'', 5404319552844595 / 9007199254740992), (''B'', - (5404319552844595 / 9007199254740992))] \<and>
   computeNet binary64 book_123 \<noteq> computeNet binary64 book_321"
  by (simp add: books_123_321 net_123 net_321)


subsection \<open>Balance mappings\<close>

lemma keys_map_modify: "fst ` set (map_modify f k m) = insert k (fst ` set m)"
proof (induction m)
  case Nil
  show ?case by simp
next
  case (Cons kv m)
  obtain k' v where kv: "kv = (k', v)" by (cases kv)
  show ?case unfolding kv using Cons.IH
    by (cases "k < k'"; cases "k = k'") (simp_all add: insert_commute)
qed

lemma sorted_keys_Cons:
  "sorted_keys ((k, v) # m) \<longleftrightarrow> (\<forall>k' \<in> fst ` set m. k < k') \<and> sorted_keys m"
  by (auto simp: sorted_keys_def)

lemma sorted_keys_Nil: "sorted_keys []"
  by (simp add: sorted_keys_def)

lemma sorted_map_modify: "sorted_keys m \<Longrightarrow> sorted_keys (map_modify f k m)"
proof (induction m)
  case Nil
  then show ?case by (simp add: sorted_keys_def)
next
  case (Cons kv m)
  obtain k' v where kv: "kv = (k', v)" by (cases kv)
  from Cons.prems kv have lt: "\<forall>x \<in> fst ` set m. k' < x" and sm: "sorted_keys m"
    by (simp_all add: sorted_keys_Cons)
  show ?case
  proof (cases "k < k'")
    case True
    with lt sm kv show ?thesis by (auto simp: sorted_keys_Cons)
  next
    case False
    show ?thesis
    proof (cases "k = k'")
      case True
      with lt sm kv show ?thesis by (auto simp: sorted_keys_Cons)
    next
      case ne: False
      with False have "k' < k" by simp
      with lt sm kv False ne Cons.IH [OF sm] show ?thesis
        by (auto simp: sorted_keys_Cons keys_map_modify)
    qed
  qed
qed

lemma sorted_keys_distinct: "sorted_keys m \<Longrightarrow> distinct (map fst m)"
  by (simp add: sorted_keys_def strict_sorted_iff)

lemma val_absent: "k \<notin> fst ` set m \<Longrightarrow> val m k = 0"
  by (simp add: val_def map_of_eq_None_iff [THEN iffD2])

lemma map_of_map_modify:
  "sorted_keys m \<Longrightarrow> map_of (map_modify f k m) = (map_of m)(k \<mapsto> f (val m k))"
proof (induction m)
  case Nil
  then show ?case by (simp add: val_def)
next
  case (Cons kv m)
  obtain k' v where kv: "kv = (k', v)" by (cases kv)
  from Cons.prems kv have lt: "\<forall>x \<in> fst ` set m. k' < x" and sm: "sorted_keys m"
    by (simp_all add: sorted_keys_Cons)
  show ?case
  proof (cases "k < k'")
    case True
    with lt have "k \<notin> fst ` set ((k', v) # m)" by force
    then have "val ((k', v) # m) k = 0" by (rule val_absent)
    with True kv show ?thesis by (auto simp: fun_eq_iff)
  next
    case False
    show ?thesis
    proof (cases "k = k'")
      case True
      with kv show ?thesis by (auto simp: val_def)
    next
      case ne: False
      with False kv Cons.IH [OF sm] show ?thesis by (auto simp: val_def)
    qed
  qed
qed

lemma val_map_modify:
  "sorted_keys m \<Longrightarrow> val (map_modify f k m) k' = (if k' = k then f (val m k) else val m k')"
  by (simp add: val_def [of "map_modify f k m"] map_of_map_modify) (simp add: val_def)

lemma sorted_keys_unique:
  assumes "sorted_keys m" and "sorted_keys m'" and "map_of m = map_of m'"
  shows "m = m'"
proof -
  have d: "distinct (map fst m)" "distinct (map fst m')"
    using assms by (simp_all add: sorted_keys_distinct)
  have s: "set m = set m'"
  proof (rule set_eqI)
    fix x :: "string \<times> real"
    obtain k v where x: "x = (k, v)" by (cases x)
    have "x \<in> set m \<longleftrightarrow> map_of m k = Some v" using d(1) x by simp
    also have "\<dots> \<longleftrightarrow> map_of m' k = Some v" using assms(3) by simp
    also have "\<dots> \<longleftrightarrow> x \<in> set m'" using d(2) x by simp
    finally show "x \<in> set m \<longleftrightarrow> x \<in> set m'" .
  qed
  have inj: "inj_on fst (set m \<union> set m')" using d s by (simp add: distinct_map)
  have srt: "sorted (map fst m)" "sorted (map fst m')"
    using assms by (simp_all add: sorted_keys_def strict_sorted_iff)
  show ?thesis by (rule map_sorted_distinct_set_unique [OF inj srt(1) d(1) srt(2) d(2) s])
qed

lemma sorted_fold_modify:
  "sorted_keys m \<Longrightarrow> sorted_keys (fold (\<lambda>x. map_modify (f x) (g x)) xs m)"
  by (induction xs arbitrary: m) (simp_all add: sorted_map_modify)

lemma sorted_add_expense: "sorted_keys m \<Longrightarrow> sorted_keys (add_expense rnd e m)"
proof -
  assume "sorted_keys m"
  then have "sorted_keys (map_modify (\<lambda>v. rnd (v + amount e)) (payer e) m)"
    by (rule sorted_map_modify)
  then have "sorted_keys (fold (\<lambda>x. map_modify (\<lambda>v. rnd (v - snd x)) (fst x)) (shares e)
      (map_modify (\<lambda>v. rnd (v + amount e)) (payer e) m))"
    by (rule sorted_fold_modify)
  then show ?thesis by (simp add: add_expense_def case_prod_unfold)
qed

lemma sorted_fold_add_expense:
  "sorted_keys m \<Longrightarrow> sorted_keys (fold (add_expense rnd) es m)"
  by (induction es arbitrary: m) (simp_all add: sorted_add_expense)

lemma keys_clamp_noise: "map fst (clamp_noise rnd m) = map fst m"
  by (induction m) (auto simp: clamp_noise_def)

lemma sorted_computeNet: "sorted_keys (computeNet rnd b)"
proof -
  have "sorted_keys (fold (\<lambda>u. map_modify (\<lambda>_. 0) u) (users b) [])"
    using sorted_fold_modify [of "[]" "\<lambda>u _. 0" "\<lambda>u. u" "users b"] by (simp add: sorted_keys_Nil)
  then have "sorted_keys (fold (add_expense rnd) (expenses b)
      (fold (\<lambda>u. map_modify (\<lambda>_. 0) u) (users b) []))"
    by (rule sorted_fold_add_expense)
  then show ?thesis by (simp add: computeNet_def sorted_keys_def keys_clamp_noise)
qed


subsection \<open>What the matching loop leaves\<close>

lemma EPS_nonneg: "mono rnd \<Longrightarrow> rnd 0 = 0 \<Longrightarrow> 0 \<le> EPS rnd"
proof -
  assume m: "mono rnd" and z: "rnd 0 = 0"
  have "rnd 0 \<le> rnd (1 / 1000000)" by (rule monoD [OF m]) simp
  with z show ?thesis by (simp add: EPS_def)
qed

lemma names_cred_debt:
  "map name (cred rnd net) = map fst (filter (\<lambda>(u, a). a > EPS rnd) net)"
  "map name (debt rnd net) = map fst (filter (\<lambda>(u, a). \<not> a > EPS rnd \<and> a < - EPS rnd) net)"
  by (simp_all add: cred_def debt_def case_prod_unfold comp_def)

lemma settle_inv_init:
  assumes e: "0 \<le> EPS rnd" and s: "sorted_keys net"
  shows "settle_inv rnd net (cred rnd net) (debt rnd net)"
proof -
  have d: "distinct (map fst net)" using s by (rule sorted_keys_distinct)
  have mo: "\<And>k v. (k, v) \<in> set net \<longleftrightarrow> map_of net k = Some v" using d by simp
  have dc: "distinct (map name (cred rnd net))" and dd: "distinct (map name (debt rnd net))"
    using d by (simp_all add: names_cred_debt distinct_map_filter)
  have disj: "set (map name (cred rnd net)) \<inter> set (map name (debt rnd net)) = {}"
  proof (rule ccontr)
    assume "set (map name (cred rnd net)) \<inter> set (map name (debt rnd net)) \<noteq> {}"
    then obtain k where "k \<in> set (map name (cred rnd net))" "k \<in> set (map name (debt rnd net))"
      by blast
    then obtain v w where "(k, v) \<in> set net" "v > EPS rnd" "(k, w) \<in> set net" "\<not> w > EPS rnd"
      by (auto simp: names_cred_debt)
    with mo show False by simp
  qed
  have c: "\<forall>n \<in> set (cred rnd net). EPS rnd < amt n \<and> map_of net (name n) = Some (amt n)"
    using mo by (auto simp: cred_def)
  have dbt: "\<forall>n \<in> set (debt rnd net). amt n < - EPS rnd \<and> map_of net (name n) = Some (amt n)"
    using mo by (auto simp: debt_def)
  have rest: "\<forall>k v. map_of net k = Some v \<and> k \<notin> name ` set (cred rnd net @ debt rnd net)
      \<longrightarrow> \<bar>v\<bar> \<le> EPS rnd"
  proof (intro allI impI)
    fix k v
    assume h: "map_of net k = Some v \<and> k \<notin> name ` set (cred rnd net @ debt rnd net)"
    then have in_net: "(k, v) \<in> set net" using mo by simp
    have "\<not> v > EPS rnd"
    proof
      assume "v > EPS rnd"
      with in_net have "\<lparr>name = k, amt = v\<rparr> \<in> set (cred rnd net)" by (force simp: cred_def)
      then have "k \<in> name ` set (cred rnd net)" by force
      with h show False by auto
    qed
    moreover have "\<not> v < - EPS rnd"
    proof
      assume "v < - EPS rnd"
      with in_net \<open>\<not> v > EPS rnd\<close> have "\<lparr>name = k, amt = v\<rparr> \<in> set (debt rnd net)"
        by (force simp: debt_def)
      then have "k \<in> name ` set (debt rnd net)" by force
      with h show False by auto
    qed
    ultimately show "\<bar>v\<bar> \<le> EPS rnd" by simp
  qed
  show ?thesis
    unfolding settle_inv_def using s dc dd disj c dbt rest by simp
qed

lemma settle_inv_final:
  assumes e: "0 \<le> EPS rnd" and inv: "settle_inv rnd bal C D" and stop: "C = [] \<or> D = []"
  shows "list_all (\<lambda>(u, v). v \<le> EPS rnd) bal \<or> list_all (\<lambda>(u, v). - EPS rnd \<le> v) bal"
proof -
  have d: "distinct (map fst bal)" using inv by (simp add: settle_inv_def sorted_keys_distinct)
  have mo: "\<And>k v. (k, v) \<in> set bal \<Longrightarrow> map_of bal k = Some v" using d by simp
  from stop show ?thesis
  proof
    assume C: "C = []"
    have "list_all (\<lambda>(u, v). v \<le> EPS rnd) bal"
      unfolding list_all_iff
    proof (clarify)
      fix k v assume "(k, v) \<in> set bal"
      then have m: "map_of bal k = Some v" by (rule mo)
      show "v \<le> EPS rnd"
      proof (cases "k \<in> name ` set D")
        case True
        then obtain n where "n \<in> set D" "name n = k" by auto
        with inv m have "v < - EPS rnd" by (auto simp: settle_inv_def)
        with e show ?thesis by simp
      next
        case False
        with inv m C have "\<bar>v\<bar> \<le> EPS rnd" by (auto simp: settle_inv_def)
        then show ?thesis by simp
      qed
    qed
    then show ?thesis ..
  next
    assume D: "D = []"
    have "list_all (\<lambda>(u, v). - EPS rnd \<le> v) bal"
      unfolding list_all_iff
    proof (clarify)
      fix k v assume "(k, v) \<in> set bal"
      then have m: "map_of bal k = Some v" by (rule mo)
      show "- EPS rnd \<le> v"
      proof (cases "k \<in> name ` set C")
        case True
        then obtain n where "n \<in> set C" "name n = k" by auto
        with inv m have "EPS rnd < v" by (auto simp: settle_inv_def)
        with e show ?thesis by simp
      next
        case False
        with inv m D have "\<bar>v\<bar> \<le> EPS rnd" by (auto simp: settle_inv_def)
        then show ?thesis by simp
      qed
    qed
    then show ?thesis ..
  qed
qed


lemma names_remove1:
  assumes "distinct (map name q)" and "x \<in> set q"
  shows "distinct (map name (remove1 x q))"
    and "name ` set (remove1 x q) = name ` set q - {name x}"
proof -
  from assms(1) have dq: "distinct q" and inj: "inj_on name (set q)"
    by (simp_all add: distinct_map)
  have sr: "set (remove1 x q) = set q - {x}" using dq by simp
  show "distinct (map name (remove1 x q))"
    using dq inj sr by (auto simp: distinct_map intro: inj_on_subset)
  show "name ` set (remove1 x q) = name ` set q - {name x}"
    using sr inj assms(2) by (auto simp: inj_on_def)
qed

lemma settle_inv_step:
  assumes m: "mono rnd" and z: "rnd 0 = 0"
    and inv: "settle_inv rnd bal C D" and ne: "C \<noteq> []" "D \<noteq> []"
  shows "settle_inv rnd
           (apply_txn rnd (name (pq_top CmpDebt D), name (pq_top CmpCred C),
              min (amt (pq_top CmpCred C)) (- amt (pq_top CmpDebt D))) bal)
           (fst (settle_step rnd (C, D, txns))) (fst (snd (settle_step rnd (C, D, txns))))"
    and "snd (snd (settle_step rnd (C, D, txns))) =
           txns @ [(name (pq_top CmpDebt D), name (pq_top CmpCred C),
              min (amt (pq_top CmpCred C)) (- amt (pq_top CmpDebt D)))]"
proof -
  define c where "c = pq_top CmpCred C"
  define d where "d = pq_top CmpDebt D"
  define pay where "pay = min (amt c) (- amt d)"
  define c1 where "c1 = c\<lparr>amt := rnd (amt c - pay)\<rparr>"
  define d1 where "d1 = d\<lparr>amt := rnd (amt d + pay)\<rparr>"
  define C1 where "C1 = remove1 c C"
  define D1 where "D1 = remove1 d D"
  define C2 where "C2 = (if amt c1 > EPS rnd then C1 @ [c1] else C1)"
  define D2 where "D2 = (if amt d1 < - EPS rnd then D1 @ [d1] else D1)"
  define bal1 where "bal1 = map_modify (\<lambda>v. rnd (v + pay)) (name d) bal"
  define bal2 where "bal2 = map_modify (\<lambda>v. rnd (v - pay)) (name c) bal1"
  have e: "0 \<le> EPS rnd" using m z by (rule EPS_nonneg)
  have cin: "c \<in> set C" and din: "d \<in> set D"
    using ne by (simp_all add: c_def d_def pq_top_in)
  from inv have sb: "sorted_keys bal" and dn: "distinct (map name (C @ D))"
    and iC: "\<forall>n \<in> set C. EPS rnd < amt n \<and> map_of bal (name n) = Some (amt n)"
    and iD: "\<forall>n \<in> set D. amt n < - EPS rnd \<and> map_of bal (name n) = Some (amt n)"
    and iR: "\<forall>k v. map_of bal k = Some v \<and> k \<notin> name ` set (C @ D) \<longrightarrow> \<bar>v\<bar> \<le> EPS rnd"
    by (simp_all add: settle_inv_def)
  from iC cin have gc: "EPS rnd < amt c" and mc: "map_of bal (name c) = Some (amt c)" by auto
  from iD din have gd: "amt d < - EPS rnd" and md: "map_of bal (name d) = Some (amt d)" by auto
  have pay_gt: "EPS rnd < pay" using gc gd by (simp add: pay_def)
  have pay_c: "pay \<le> amt c" and pay_d: "pay \<le> - amt d" by (simp_all add: pay_def)
  from dn have dC: "distinct (map name C)" and dD: "distinct (map name D)"
    and CD: "name ` set C \<inter> name ` set D = {}" by auto
  have ncd: "name c \<noteq> name d" using cin din CD by auto
  have c1_nonneg: "0 \<le> amt c1"
  proof -
    have "rnd 0 \<le> rnd (amt c - pay)" using pay_c by (intro monoD [OF m]) simp
    with z show ?thesis by (simp add: c1_def)
  qed
  have d1_nonpos: "amt d1 \<le> 0"
  proof -
    have "rnd (amt d + pay) \<le> rnd 0" using pay_d by (intro monoD [OF m]) simp
    with z show ?thesis by (simp add: d1_def)
  qed
  have s1: "sorted_keys bal1" using sb by (simp add: bal1_def sorted_map_modify)
  have s2: "sorted_keys bal2" using s1 by (simp add: bal2_def sorted_map_modify)
  have vd: "val bal (name d) = amt d" using md by (simp add: val_def)
  have vc: "val bal1 (name c) = amt c"
    using sb mc ncd by (simp add: bal1_def val_map_modify) (simp add: val_def)
  have m1: "map_of bal1 = (map_of bal)(name d \<mapsto> amt d1)"
    using sb vd by (simp add: bal1_def map_of_map_modify d1_def)
  have m2: "map_of bal2 = (map_of bal)(name d \<mapsto> amt d1, name c \<mapsto> amt c1)"
    using s1 vc m1 by (simp add: bal2_def map_of_map_modify c1_def)
  have nC1: "distinct (map name C1)" "name ` set C1 = name ` set C - {name c}"
    using names_remove1 [OF dC cin] by (simp_all add: C1_def)
  have nD1: "distinct (map name D1)" "name ` set D1 = name ` set D - {name d}"
    using names_remove1 [OF dD din] by (simp_all add: D1_def)
  have sC1: "set C1 \<subseteq> set C" and sD1: "set D1 \<subseteq> set D"
    by (simp_all add: C1_def D1_def set_remove1_subset)
  have nc1: "name c1 = name c" and nd1: "name d1 = name d" by (simp_all add: c1_def d1_def)
  have dist2: "distinct (map name (C2 @ D2))"
    using nC1 nD1 CD nc1 nd1 cin din ncd by (auto simp: C2_def D2_def)
  have iC2: "\<forall>n \<in> set C2. EPS rnd < amt n \<and> map_of bal2 (name n) = Some (amt n)"
  proof
    fix n assume n: "n \<in> set C2"
    show "EPS rnd < amt n \<and> map_of bal2 (name n) = Some (amt n)"
    proof (cases "n \<in> set C1")
      case True
      then have "name n \<in> name ` set C - {name c}" using nC1(2) by blast
      then have "name n \<noteq> name c" "name n \<noteq> name d" using CD din by auto
      with True sC1 iC m2 show ?thesis by auto
    next
      case False
      with n have "n = c1" "EPS rnd < amt c1" by (auto simp: C2_def split: if_splits)
      with m2 nc1 show ?thesis by simp
    qed
  qed
  have iD2: "\<forall>n \<in> set D2. amt n < - EPS rnd \<and> map_of bal2 (name n) = Some (amt n)"
  proof
    fix n assume n: "n \<in> set D2"
    show "amt n < - EPS rnd \<and> map_of bal2 (name n) = Some (amt n)"
    proof (cases "n \<in> set D1")
      case True
      then have "name n \<in> name ` set D - {name d}" using nD1(2) by blast
      then have "name n \<noteq> name d" "name n \<noteq> name c" using CD cin by auto
      with True sD1 iD m2 show ?thesis by auto
    next
      case False
      with n have "n = d1" "amt d1 < - EPS rnd" by (auto simp: D2_def split: if_splits)
      with m2 nd1 ncd show ?thesis by simp
    qed
  qed
  have iR2: "\<forall>k v. map_of bal2 k = Some v \<and> k \<notin> name ` set (C2 @ D2) \<longrightarrow> \<bar>v\<bar> \<le> EPS rnd"
  proof (intro allI impI)
    fix k v assume h: "map_of bal2 k = Some v \<and> k \<notin> name ` set (C2 @ D2)"
    show "\<bar>v\<bar> \<le> EPS rnd"
    proof (cases "k = name c")
      case True
      with h m2 have v: "v = amt c1" by simp
      have "c1 \<notin> set C2"
      proof
        assume "c1 \<in> set C2"
        then have "name c1 \<in> name ` set (C2 @ D2)" by simp
        with h True nc1 show False by simp
      qed
      then have "\<not> EPS rnd < amt c1" by (auto simp: C2_def split: if_splits)
      with v c1_nonneg show ?thesis by simp
    next
      case kc: False
      show ?thesis
      proof (cases "k = name d")
        case True
        with h m2 ncd have v: "v = amt d1" by simp
        have "d1 \<notin> set D2"
        proof
          assume "d1 \<in> set D2"
          then have "name d1 \<in> name ` set (C2 @ D2)" by simp
          with h True nd1 show False by simp
        qed
        then have "\<not> amt d1 < - EPS rnd" by (auto simp: D2_def split: if_splits)
        with v d1_nonpos e show ?thesis by simp
      next
        case kd: False
        from h kc kd m2 have mb: "map_of bal k = Some v" by simp
        have "name ` set C1 \<subseteq> name ` set C2" "name ` set D1 \<subseteq> name ` set D2"
          by (auto simp: C2_def D2_def)
        with h kc kd nC1(2) nD1(2) have "k \<notin> name ` set (C @ D)" by auto
        with iR mb show ?thesis by blast
      qed
    qed
  qed
  have step: "settle_step rnd (C, D, txns) = (C2, D2, txns @ [(name d, name c, pay)])"
    using pay_gt
    by (simp add: settle_step_def Let_def pq_pop_def c_def d_def pay_def c1_def d1_def
        C1_def D1_def C2_def D2_def)
  have app: "apply_txn rnd (name d, name c, pay) bal = bal2"
    by (simp add: apply_txn_def bal2_def bal1_def)
  show "settle_inv rnd
           (apply_txn rnd (name (pq_top CmpDebt D), name (pq_top CmpCred C),
              min (amt (pq_top CmpCred C)) (- amt (pq_top CmpDebt D))) bal)
           (fst (settle_step rnd (C, D, txns))) (fst (snd (settle_step rnd (C, D, txns))))"
    using s2 dist2 iC2 iD2 iR2 step app
    unfolding settle_inv_def c_def [symmetric] d_def [symmetric] pay_def [symmetric] by simp
  show "snd (snd (settle_step rnd (C, D, txns))) =
           txns @ [(name (pq_top CmpDebt D), name (pq_top CmpCred C),
              min (amt (pq_top CmpCred C)) (- amt (pq_top CmpDebt D)))]"
    using step by (simp add: c_def d_def pay_def)
qed


lemma settle_loop_inv:
  assumes m: "mono rnd" and z: "rnd 0 = 0"
  shows "settle_inv rnd (fold (apply_txn rnd) txns net) C D \<Longrightarrow>
         settle_loop rnd C D txns = Some r \<Longrightarrow>
         list_all (\<lambda>(u, v). v \<le> EPS rnd) (fold (apply_txn rnd) r net) \<or>
         list_all (\<lambda>(u, v). - EPS rnd \<le> v) (fold (apply_txn rnd) r net)"
proof (induction "length C + length D" arbitrary: C D txns rule: less_induct)
  case less
  have e: "0 \<le> EPS rnd" using m z by (rule EPS_nonneg)
  show ?case
  proof (cases "C \<noteq> [] \<and> D \<noteq> []")
    case False
    with less.prems(2) have "r = txns" by (simp add: settle_loop_stop)
    with settle_inv_final [OF e less.prems(1)] False show ?thesis by auto
  next
    case True
    let ?C = "fst (settle_step rnd (C, D, txns))"
    let ?D = "fst (snd (settle_step rnd (C, D, txns)))"
    let ?t = "snd (snd (settle_step rnd (C, D, txns)))"
    from True have ne: "C \<noteq> []" "D \<noteq> []" by simp_all
    have sh: "length ?C + length ?D < length C + length D"
      by (rule settle_step_shrinks [OF z e ne])
    from less.prems(2) ne have r: "settle_loop rnd ?C ?D ?t = Some r"
      by (simp add: settle_loop_unfold)
    have "settle_inv rnd (fold (apply_txn rnd) ?t net) ?C ?D"
      using settle_inv_step [OF m z less.prems(1) ne, of txns] by simp
    from less.hyps [OF sh this r] show ?thesis .
  qed
qed

text \<open>
  Claim C1, as the code has it. \<^verbatim>\<open>settle\<close> returns a list of transactions, and after they
  are applied to the balances of \<^verbatim>\<open>computeNet\<close> the way the loop applies them (the payer
  \<open>from\<close> moves up by the amount, the payee \<open>to\<close> down), no balance above \<open>EPS\<close> is left
  together with a balance below \<open>- EPS\<close>: the creditors are all within \<open>EPS\<close> of zero or the
  debtors are. The rounding has to be monotone and to keep zero, as \<open>binary64\<close> does
  (\<open>mono_binary64\<close>, \<open>binary64_zero\<close>); the balances are finite doubles.
\<close>

theorem settle_leaves_one_side:
  assumes "mono rnd" and "rnd 0 = 0"
  shows "\<exists>txns. settle rnd b = Some txns \<and>
           (list_all (\<lambda>(u, v). v \<le> EPS rnd) (fold (apply_txn rnd) txns (computeNet rnd b)) \<or>
            list_all (\<lambda>(u, v). - EPS rnd \<le> v) (fold (apply_txn rnd) txns (computeNet rnd b)))"
proof -
  have e: "0 \<le> EPS rnd" using assms by (rule EPS_nonneg)
  let ?net = "computeNet rnd b"
  from settle_loop_returns [OF assms(2) e] obtain txns
    where r: "settle_loop rnd (cred rnd ?net) (debt rnd ?net) [] = Some txns" by blast
  have "settle_inv rnd (fold (apply_txn rnd) [] ?net) (cred rnd ?net) (debt rnd ?net)"
    using settle_inv_init [OF e sorted_computeNet] by simp
  from settle_loop_inv [OF assms this r] r show ?thesis
    by (simp add: settle_def settle_net_def)
qed

theorem settle_leaves_one_side_witness:
  "mono binary64 \<and> binary64 0 = 0 \<and>
   (\<exists>txns. settle binary64 book_uneven = Some txns \<and>
      (list_all (\<lambda>(u, v). v \<le> EPS binary64)
         (fold (apply_txn binary64) txns (computeNet binary64 book_uneven)) \<or>
       list_all (\<lambda>(u, v). - EPS binary64 \<le> v)
         (fold (apply_txn binary64) txns (computeNet binary64 book_uneven))))"
  by (intro conjI mono_binary64 binary64_zero
      settle_leaves_one_side [OF mono_binary64 binary64_zero])

subsection \<open>Conservation up to rounding\<close>








lemma rounds_within_exact: "rounds_within exact M 0"
  by (simp add: rounds_within_def exact_def)














subsection \<open>What a failing recorder leaves\<close>

lemma exact_tokens_not_Success: "exact_tokens rnd b ts e s = Inl r \<Longrightarrow> r \<noteq> Success"
proof (induction ts arbitrary: e s)
  case Nil
  then show ?case by simp
next
  case (Cons t ts)
  then show ?case
    by (auto split: option.splits stod_result.splits if_splits)
qed

lemma addExpenseExact_Success:
  assumes "fst (addExpenseExact rnd b p a ts) = Success"
  shows "\<exists>e' s'. exact_tokens rnd b ts \<lparr>payer = p, amount = a, shares = []\<rparr> 0 = Inr (e', s') \<and>
           \<not> \<bar>rnd (s' - a)\<bar> > share_tolerance rnd \<and>
           snd (addExpenseExact rnd b p a ts) = b\<lparr>expenses := expenses b @ [e']\<rparr>"
proof (cases "exact_tokens rnd b ts \<lparr>payer = p, amount = a, shares = []\<rparr> 0")
  case (Inl r)
  with assms exact_tokens_not_Success [OF Inl]
  show ?thesis by (simp add: addExpenseExact_def split: if_splits)
next
  case (Inr es)
  obtain e' s' where "es = (e', s')" by (cases es)
  with Inr assms show ?thesis by (simp add: addExpenseExact_def split: if_splits)
qed



subsection \<open>Evaluating \<^verbatim>\<open>save\<close> and \<^verbatim>\<open>load\<close>\<close>

lemma digit_char_values:
  "digit_char 0 = CHR ''0''" "digit_char 1 = CHR ''1''" "digit_char 2 = CHR ''2''"
  "digit_char 3 = CHR ''3''" "digit_char 4 = CHR ''4''" "digit_char 5 = CHR ''5''"
  "digit_char 6 = CHR ''6''" "digit_char 7 = CHR ''7''" "digit_char 8 = CHR ''8''"
  "digit_char 9 = CHR ''9''"
  by code_simp+

lemma decimal_small: "n < 10 \<Longrightarrow> decimal n = [digit_char n]"
  by (subst decimal.simps) simp

lemma decimal_large: "\<not> n < 10 \<Longrightarrow> decimal n = decimal (n div 10) @ [digit_char (n mod 10)]"
  by (subst decimal.simps) simp

lemma load_users_done: "load_users 0 s us = Some (s, us)"
  by (subst load_users.simps) simp

lemma load_users_step:
  "0 < k \<Longrightarrow>
   load_users k s us =
     (if fst (getline s) = [] then load_users k (snd (getline s)) us
      else load_users (k - 1) (snd (getline s))
             (if fst (getline s) \<in> set us then us else us @ [fst (getline s)]))"
  by (subst load_users.simps) (simp add: case_prod_beta)

lemma load_shares_numeral:
  "load_shares rnd (numeral k) s e =
     (case read_word s of
        None \<Rightarrow> None
      | Some (nm, s1) \<Rightarrow>
          (case read_double rnd s1 of
             None \<Rightarrow> None
           | Some (x, s2) \<Rightarrow>
               load_shares rnd (pred_numeral k) s2
                 (e\<lparr>shares := map_modify (\<lambda>_. x) nm (shares e)\<rparr>)))"
  by (simp add: numeral_eq_Suc)

lemma load_expenses_numeral:
  "load_expenses rnd (numeral k) s b =
     (case read_word s of
        None \<Rightarrow> (Failure Corrupt_expense_header, b)
      | Some (tag1, s1) \<Rightarrow>
     (case read_word s1 of
        None \<Rightarrow> (Failure Corrupt_expense_header, b)
      | Some (pyr, s2) \<Rightarrow>
     (case read_word s2 of
        None \<Rightarrow> (Failure Corrupt_expense_header, b)
      | Some (tag2, s3) \<Rightarrow>
     (case read_double rnd s3 of
        None \<Rightarrow> (Failure Corrupt_expense_header, b)
      | Some (amnt, s4) \<Rightarrow>
          if tag1 \<noteq> ''PAYER'' \<or> tag2 \<noteq> ''AMT'' then (Failure Corrupt_expense_header, b)
          else
     (case read_word s4 of
        None \<Rightarrow> (Failure Corrupt_shares_tag, b)
      | Some (tag3, s5) \<Rightarrow>
     (case read_size s5 of
        None \<Rightarrow> (Failure Corrupt_shares_tag, b)
      | Some (m, s6) \<Rightarrow>
          if tag3 \<noteq> ''SHARES'' then (Failure Corrupt_shares_tag, b)
          else
     (case load_shares rnd m s6 \<lparr>payer = pyr, amount = amnt, shares = []\<rparr> of
        None \<Rightarrow> (Failure Corrupt_share_entry, b)
      | Some (e, s7) \<Rightarrow>
          load_expenses rnd (pred_numeral k) s7 (b\<lparr>expenses := expenses b @ [e]\<rparr>))))))))"
  by (simp add: numeral_eq_Suc)

lemmas text_eval =
  digit_char_values decimal_small decimal_large fixed2_def share_text_def expense_text_def
  save_text_def save_def

lemmas load_eval =
  read_word_def read_size_def read_double_def ignore_line_def getline_def
  load_users_done load_users_step load_shares_numeral load_expenses_numeral load_def









subsection \<open>Saving and loading again\<close>

lemma digit_cases:
  "0 \<le> d \<Longrightarrow> d < 10 \<Longrightarrow>
   d = 0 \<or> d = 1 \<or> d = 2 \<or> d = 3 \<or> d = 4 \<or> d = 5 \<or> d = 6 \<or> d = 7 \<or> d = 8 \<or> d = (9::int)"
  by arith

lemma digit_char_digit:
  assumes "0 \<le> d" and "d < 10"
  shows "isdigit (digit_char d)" and "digit_val (digit_char d) = d"
  using digit_cases [OF assms]
  by (auto simp: digit_char_values isdigit_def digit_val_def)

lemma isdigit_other:
  assumes "isdigit c"
  shows "\<not> isspace c" and "c \<noteq> CHR ''-''" and "c \<noteq> CHR ''+''" and "c \<noteq> CHR ''.''"
    and "c \<noteq> CHR 0x0A" and "tolower c \<noteq> CHR ''e''"
  using assms by (auto simp: isdigit_def isspace_def tolower_def less_eq_char_def)

lemma digits_val_snoc: "digits_val (ds @ [c]) = 10 * digits_val ds + digit_val c"
  by (simp add: digits_val_def)

lemma decimal_digits:
  "0 \<le> n \<Longrightarrow> list_all isdigit (decimal n) \<and> decimal n \<noteq> [] \<and> digits_val (decimal n) = n"
proof (induction n rule: decimal.induct)
  case (1 n)
  show ?case
  proof (cases "n < 10")
    case True
    with "1.prems" show ?thesis
      by (subst (1 2 3) decimal.simps) (simp add: digit_char_digit digits_val_def)
  next
    case False
    from "1.prems" have d: "0 \<le> n div 10" by simp
    have m: "0 \<le> n mod 10" "n mod 10 < 10" by simp_all
    from "1.IH" [OF False d] m False show ?thesis
      by (subst (1 2 3) decimal.simps) (simp add: digit_char_digit digits_val_snoc)
  qed
qed

lemma space_isspace: "isspace (CHR '' '')" "isspace (CHR 0x0A)"
  by (simp_all add: isspace_def)

lemma minus_not_space: "\<not> isspace (CHR ''-'')"
  by (simp add: isspace_def)

lemma takeWhile_prefix:
  "list_all P xs \<Longrightarrow> \<not> P c \<Longrightarrow> takeWhile P (xs @ c # rest) = xs"
  by (induction xs) simp_all

lemma dropWhile_prefix:
  "list_all P xs \<Longrightarrow> \<not> P c \<Longrightarrow> dropWhile P (xs @ c # rest) = c # rest"
  by (induction xs) simp_all

lemma take_sign_digit: "isdigit d \<Longrightarrow> take_sign (d # s) = (False, d # s)"
  by (auto simp: take_sign_def dest: isdigit_other)

lemma read_size_decimal:
  assumes n: "0 \<le> n" "n < 2 ^ 64" and c: "\<not> isdigit c"
  shows "read_size (CHR '' '' # decimal n @ c # rest) = Some (nat n, c # rest)"
proof -
  from decimal_digits [OF n(1)] obtain d ds where
    dec: "decimal n = d # ds" and all: "list_all isdigit (decimal n)"
    and v: "digits_val (decimal n) = n"
    by (cases "decimal n") auto
  from all dec have d: "isdigit d" by simp
  then have sp: "\<not> isspace d" by (rule isdigit_other)
  have "dropWhile isspace (CHR '' '' # decimal n @ c # rest) = decimal n @ c # rest"
    using sp space_isspace by (simp add: dec)
  moreover have "take_sign (decimal n @ c # rest) = (False, decimal n @ c # rest)"
    unfolding dec append_Cons using d by (rule take_sign_digit)
  moreover have "takeWhile isdigit (decimal n @ c # rest) = decimal n"
    using all c by (rule takeWhile_prefix)
  moreover have "dropWhile isdigit (decimal n @ c # rest) = c # rest"
    using all c by (rule dropWhile_prefix)
  ultimately show ?thesis using n decimal_digits [OF n(1)]
    by (simp add: read_size_def v del: takeWhile.simps dropWhile.simps)
qed

lemma read_word_word:
  assumes w: "word w" and c: "isspace c" and pre: "list_all isspace pre"
  shows "read_word (pre @ w @ c # rest) = Some (w, c # rest)"
proof -
  from w obtain x xs where wx: "w = x # xs" and x: "\<not> isspace x"
    by (cases w) (auto simp: word_def)
  have "dropWhile isspace (pre @ w @ c # rest) = w @ c # rest"
    using pre x unfolding wx
    by (induction pre) simp_all
  moreover have "takeWhile (\<lambda>c. \<not> isspace c) (w @ c # rest) = w"
    using w c by (intro takeWhile_prefix) (simp_all add: word_def)
  moreover have "dropWhile (\<lambda>c. \<not> isspace c) (w @ c # rest) = c # rest"
    using w c by (intro dropWhile_prefix) (simp_all add: word_def)
  ultimately show ?thesis using wx by (simp add: read_word_def)
qed


lemma rne_nonneg: "0 \<le> y \<Longrightarrow> 0 \<le> rne y"
  using rne_floor [of y] by (simp add: order_trans [of 0 "\<lfloor>y\<rfloor>"])

lemma hundredths: "100 * (h div 100) + 10 * (h mod 100 div 10) + h mod 10 = (h::int)"
proof -
  have "h mod 100 mod 10 = h mod 10" by (rule mod_mod_cancel) simp
  then have "10 * (h mod 100 div 10) + h mod 10 = h mod 100" by (metis mult_div_mod_eq)
  then show ?thesis by (metis add.assoc mult_div_mod_eq)
qed

lemma read_double_digits:
  assumes h: "0 \<le> h" and fin: "\<not> overflows (of_int h / 100)"
  shows "read_double rnd
           (CHR '' '' # (if neg then ''-'' else []) @ decimal (h div 100) @ CHR ''.'' #
              digit_char (h mod 100 div 10) # digit_char (h mod 10) # CHR 0x0A # rest) =
         Some (rnd (if neg then - (of_int h / 100) else of_int h / 100), CHR 0x0A # rest)"
proof -
  define q where "q = h div 100"
  define d1 where "d1 = digit_char (h mod 100 div 10)"
  define d2 where "d2 = digit_char (h mod 10)"
  define t where "t = decimal q @ CHR ''.'' # d1 # d2 # CHR 0x0A # rest"
  have q: "0 \<le> q" using h by (simp add: q_def)
  from decimal_digits [OF q] obtain d ds where
    dec: "decimal q = d # ds" and all: "list_all isdigit (decimal q)"
    and v: "digits_val (decimal q) = q"
    by (cases "decimal q") auto
  from all dec have d: "isdigit d" by simp
  have r1: "0 \<le> h mod 100 div 10" "h mod 100 div 10 < 10" by simp_all
  have r2: "0 \<le> h mod 10" "h mod 10 < 10" by simp_all
  have d1: "isdigit d1" "digit_val d1 = h mod 100 div 10"
    unfolding d1_def using r1 by (simp_all add: digit_char_digit)
  have d2: "isdigit d2" "digit_val d2 = h mod 10"
    unfolding d2_def using r2 by (simp_all add: digit_char_digit)
  have point: "\<not> isdigit (CHR ''.'')" and nl: "\<not> isdigit (CHR 0x0A)"
    by (simp_all add: isdigit_def)
  have B: "dropWhile isspace (CHR '' '' # (if neg then ''-'' else []) @ t) = (if neg then ''-'' else []) @ t"
    using isdigit_other(1) [OF d] by (cases neg) (simp_all add: t_def dec space_isspace minus_not_space)
  have C: "take_sign ((if neg then ''-'' else []) @ t) = (neg, t)"
    using isdigit_other(2,3) [OF d] by (cases neg) (simp_all add: t_def dec take_sign_def)
  have D1: "takeWhile isdigit t = decimal q" unfolding t_def using all point by (rule takeWhile_prefix)
  have D2: "dropWhile isdigit t = CHR ''.'' # d1 # d2 # CHR 0x0A # rest"
    unfolding t_def using all point by (rule dropWhile_prefix)
  have E1: "takeWhile isdigit (d1 # d2 # CHR 0x0A # rest) = [d1, d2]"
    using d1(1) d2(1) nl by simp
  have E2: "dropWhile isdigit (d1 # d2 # CHR 0x0A # rest) = CHR 0x0A # rest"
    using d1(1) d2(1) nl by simp
  have val: "digits_val (decimal q @ [d1, d2]) = h"
  proof -
    have "digits_val (decimal q @ [d1, d2]) = 10 * (10 * q + digit_val d1) + digit_val d2"
      using digits_val_snoc [of "decimal q @ [d1]" d2] digits_val_snoc [of "decimal q" d1] v by simp
    also have "\<dots> = 100 * (h div 100) + 10 * (h mod 100 div 10) + h mod 10"
      by (simp add: d1 d2 q_def)
    also have "\<dots> = h" by (rule hundredths)
    finally show ?thesis .
  qed
  have e: "tolower (CHR 0x0A) \<noteq> CHR ''e''" by (simp add: tolower_def)
  have "read_double rnd (CHR '' '' # (if neg then ''-'' else []) @ t) =
        Some (rnd (if neg then - (of_int h / 100) else of_int h / 100), CHR 0x0A # rest)"
    unfolding read_double_def B C
    using fin by (simp add: D1 D2 E1 E2 val e pow10_def Let_def del: takeWhile.simps dropWhile.simps)
  then show ?thesis by (simp add: t_def q_def d1_def d2_def)
qed

lemma read_double_fixed2:
  assumes "reads_back rnd x"
  shows "read_double rnd (CHR '' '' # fixed2 x @ CHR 0x0A # rest) = Some (x, CHR 0x0A # rest)"
proof -
  define h where "h = rne (\<bar>x\<bar> * 100)"
  have h: "0 \<le> h" unfolding h_def by (rule rne_nonneg) simp
  from assms have fin: "\<not> overflows (of_int h / 100)"
    and rb: "rnd (if x < 0 then - (of_int h / 100) else of_int h / 100) = x"
    unfolding reads_back_def Let_def h_def by blast+
  from read_double_digits [OF h fin, of rnd "x < 0" rest] rb
  show ?thesis by (simp add: fixed2_def Let_def h_def)
qed


lemma read_word_tag:
  "read_word (''USERS '' @ r) = Some (''USERS'', CHR '' '' # r)"
  "read_word (''EXPENSES '' @ r) = Some (''EXPENSES'', CHR '' '' # r)"
  "read_word (CHR 0x0A # ''PAYER '' @ r) = Some (''PAYER'', CHR '' '' # r)"
  "read_word (CHR '' '' # ''AMT '' @ r) = Some (''AMT'', CHR '' '' # r)"
  "read_word (CHR 0x0A # ''SHARES '' @ r) = Some (''SHARES'', CHR '' '' # r)"
  by (simp_all add: read_word_def isspace_def)

lemma getline_line:
  assumes "line u"
  shows "getline (u @ CHR 0x0A # r) = (u, r)"
proof -
  from assms have all: "list_all (\<lambda>c. c \<noteq> CHR 0x0A) u" by (simp add: line_def)
  have "takeWhile (\<lambda>c. c \<noteq> CHR 0x0A) (u @ CHR 0x0A # r) = u"
    using all by (rule takeWhile_prefix) simp
  moreover have "dropWhile (\<lambda>c. c \<noteq> CHR 0x0A) (u @ CHR 0x0A # r) = CHR 0x0A # r"
    using all by (rule dropWhile_prefix) simp
  ultimately show ?thesis by (simp add: getline_def ignore_line_def)
qed

lemma load_users_lines:
  "distinct (acc @ us) \<Longrightarrow> list_all line us \<Longrightarrow>
   load_users (length us) (concat (map (\<lambda>u. u @ [CHR 0x0A]) us) @ rest) acc = Some (rest, acc @ us)"
proof (induction us arbitrary: acc)
  case Nil
  show ?case by (subst load_users.simps) simp
next
  case (Cons u us)
  from Cons.prems have u: "line u" and rest: "list_all line us"
    and new: "u \<notin> set acc" and d: "distinct ((acc @ [u]) @ us)" by simp_all
  from u have ne: "u \<noteq> []" by (simp add: line_def)
  have g: "getline (u @ CHR 0x0A # concat (map (\<lambda>u. u @ [CHR 0x0A]) us) @ rest) =
           (u, concat (map (\<lambda>u. u @ [CHR 0x0A]) us) @ rest)"
    using u by (rule getline_line)
  have "load_users (length (u # us)) (concat (map (\<lambda>u. u @ [CHR 0x0A]) (u # us)) @ rest) acc =
        load_users (length us) (concat (map (\<lambda>u. u @ [CHR 0x0A]) us) @ rest) (acc @ [u])"
    by (subst load_users.simps) (simp add: g ne new)
  also have "\<dots> = Some (rest, (acc @ [u]) @ us)" using d rest by (rule Cons.IH)
  finally show ?case by simp
qed

lemma map_modify_last:
  "list_all (\<lambda>kv. fst kv < k) m \<Longrightarrow> map_modify f k m = m @ [(k, f 0)]"
  by (induction m) auto

lemma load_shares_text:
  "sorted_keys (acc @ sh) \<Longrightarrow> list_all (storable_share rnd) sh \<Longrightarrow>
   load_shares rnd (length sh) (CHR 0x0A # concat (map share_text sh) @ rest) (e\<lparr>shares := acc\<rparr>) =
     Some (e\<lparr>shares := acc @ sh\<rparr>, CHR 0x0A # rest)"
proof (induction sh arbitrary: acc)
  case Nil
  show ?case by simp
next
  case (Cons kv sh)
  obtain k v where kv: "kv = (k, v)" by (cases kv)
  define T where "T = concat (map share_text sh) @ rest"
  from Cons.prems kv have hd: "storable_share rnd (k, v)"
    and rest: "list_all (storable_share rnd) sh" by simp_all
  from hd have w: "word k" and rb: "reads_back rnd v" by (simp_all add: storable_share_def)
  from Cons.prems(1) kv have below: "list_all (\<lambda>kv. fst kv < k) acc"
    by (auto simp: sorted_keys_def sorted_wrt_append list_all_iff)
  from Cons.prems(1) kv have sorted: "sorted_keys ((acc @ [(k, v)]) @ sh)" by simp
  have 1: "read_word (CHR 0x0A # k @ CHR '' '' # fixed2 v @ CHR 0x0A # T) =
           Some (k, CHR '' '' # fixed2 v @ CHR 0x0A # T)"
    using read_word_word [OF w, of "CHR '' ''" "[CHR 0x0A]"] space_isspace by simp
  have 2: "read_double rnd (CHR '' '' # fixed2 v @ CHR 0x0A # T) = Some (v, CHR 0x0A # T)"
    using rb by (rule read_double_fixed2)
  have 3: "map_modify (\<lambda>_. v) k acc = acc @ [(k, v)]" using below by (rule map_modify_last)
  have "load_shares rnd (length (kv # sh)) (CHR 0x0A # concat (map share_text (kv # sh)) @ rest)
          (e\<lparr>shares := acc\<rparr>) =
        load_shares rnd (length sh) (CHR 0x0A # T) (e\<lparr>shares := acc @ [(k, v)]\<rparr>)"
    by (simp add: kv share_text_def 1 2 3 flip: T_def)
  also have "\<dots> = Some (e\<lparr>shares := (acc @ [(k, v)]) @ sh\<rparr>, CHR 0x0A # rest)"
    unfolding T_def using sorted rest by (rule Cons.IH)
  finally show ?case by (simp add: kv)
qed

lemma load_expenses_text:
  "list_all (storable_expense rnd) es \<Longrightarrow>
   load_expenses rnd (length es) (CHR 0x0A # concat (map expense_text es) @ rest)
       \<lparr>users = us, expenses = acc\<rparr> =
     (Success, \<lparr>users = us, expenses = acc @ es\<rparr>)"
proof (induction es arbitrary: acc)
  case Nil
  show ?case by simp
next
  case (Cons e es)
  define T where "T = concat (map expense_text es) @ rest"
  from Cons.prems have hd: "storable_expense rnd e"
    and rest: "list_all (storable_expense rnd) es" by simp_all
  from hd have w: "word (payer e)" and rb: "reads_back rnd (amount e)"
    and sorted: "sorted_keys ([] @ shares e)" and len: "int (length (shares e)) < 2 ^ 64"
    and sh: "list_all (storable_share rnd) (shares e)" by (simp_all add: storable_expense_def)
  have nl: "\<not> isdigit (CHR 0x0A)" by (simp add: isdigit_def)
  have 1: "read_word (CHR '' '' # payer e @ CHR '' '' # r) = Some (payer e, CHR '' '' # r)" for r
    using read_word_word [OF w, of "CHR '' ''" "[CHR '' '']"] space_isspace by simp
  have 2: "read_double rnd (CHR '' '' # fixed2 (amount e) @ CHR 0x0A # r) = Some (amount e, CHR 0x0A # r)" for r
    using rb by (rule read_double_fixed2)
  have 3: "read_size (CHR '' '' # decimal (int (length (shares e))) @ CHR 0x0A # r) =
           Some (length (shares e), CHR 0x0A # r)" for r
    using read_size_decimal [of "int (length (shares e))" "CHR 0x0A" r] len nl by simp
  have 4: "load_shares rnd (length (shares e)) (CHR 0x0A # concat (map share_text (shares e)) @ T)
             \<lparr>payer = payer e, amount = amount e, shares = []\<rparr> =
           Some (e, CHR 0x0A # T)"
    using load_shares_text [OF sorted sh, of T "\<lparr>payer = payer e, amount = amount e, shares = []\<rparr>"]
    by simp
  have shape: "CHR 0x0A # concat (map expense_text (e # es)) @ rest =
        CHR 0x0A # ''PAYER '' @ payer e @ CHR '' '' # ''AMT '' @ fixed2 (amount e) @
        CHR 0x0A # ''SHARES '' @ decimal (int (length (shares e))) @ CHR 0x0A #
        concat (map share_text (shares e)) @ T"
    by (simp add: expense_text_def T_def)
  have "load_expenses rnd (length (e # es)) (CHR 0x0A # concat (map expense_text (e # es)) @ rest)
          \<lparr>users = us, expenses = acc\<rparr> =
        load_expenses rnd (length es) (CHR 0x0A # T) \<lparr>users = us, expenses = acc @ [e]\<rparr>"
    unfolding shape
    using read_word_tag(3) [of "payer e @ CHR '' '' # ''AMT '' @ fixed2 (amount e) @
        CHR 0x0A # ''SHARES '' @ decimal (int (length (shares e))) @ CHR 0x0A #
        concat (map share_text (shares e)) @ T"]
      read_word_tag(4) [of "fixed2 (amount e) @
        CHR 0x0A # ''SHARES '' @ decimal (int (length (shares e))) @ CHR 0x0A #
        concat (map share_text (shares e)) @ T"]
      read_word_tag(5) [of "decimal (int (length (shares e))) @ CHR 0x0A #
        concat (map share_text (shares e)) @ T"]
    by (simp add: 1 2 3 4)
  also have "\<dots> = (Success, \<lparr>users = us, expenses = (acc @ [e]) @ es\<rparr>)"
    unfolding T_def using rest by (rule Cons.IH)
  finally show ?case by simp
qed


lemma load_save_text:
  assumes "storable rnd b"
  shows "load rnd b0 (Some (save_text b)) = Some (Success, b)"
proof -
  define E where "E = concat (map expense_text (expenses b))"
  define X where "X = ''EXPENSES '' @ decimal (int (length (expenses b))) @ CHR 0x0A # E"
  define U where "U = concat (map (\<lambda>u. u @ [CHR 0x0A]) (users b)) @ X"
  from assms have d: "distinct ([] @ users b)" and lines: "list_all line (users b)"
    and nu: "int (length (users b)) < 2 ^ 64" and ne: "int (length (expenses b)) < 2 ^ 64"
    and es: "list_all (storable_expense rnd) (expenses b)" by (simp_all add: storable_def)
  have nl: "\<not> isdigit (CHR 0x0A)" by (simp add: isdigit_def)
  have shape: "save_text b = ''USERS '' @ decimal (int (length (users b))) @ CHR 0x0A # U"
    by (simp add: save_text_def U_def X_def E_def)
  have 1: "read_word (''USERS '' @ decimal (int (length (users b))) @ CHR 0x0A # U) =
           Some (''USERS'', CHR '' '' # decimal (int (length (users b))) @ CHR 0x0A # U)"
    by (rule read_word_tag)
  have 2: "read_size (CHR '' '' # decimal (int (length (users b))) @ CHR 0x0A # U) =
           Some (length (users b), CHR 0x0A # U)"
    using read_size_decimal [of "int (length (users b))" "CHR 0x0A" U] nu nl by simp
  have 3: "ignore_line (CHR 0x0A # U) = U" by (simp add: ignore_line_def)
  have 4: "load_users (length (users b)) U [] = Some (X, users b)"
    unfolding U_def using load_users_lines [OF d lines, of X] by simp
  have 5: "read_word X = Some (''EXPENSES'', CHR '' '' # decimal (int (length (expenses b))) @ CHR 0x0A # E)"
    unfolding X_def by (rule read_word_tag)
  have 6: "read_size (CHR '' '' # decimal (int (length (expenses b))) @ CHR 0x0A # E) =
           Some (length (expenses b), CHR 0x0A # E)"
    using read_size_decimal [of "int (length (expenses b))" "CHR 0x0A" E] ne nl by simp
  have 7: "load_expenses rnd (length (expenses b)) (CHR 0x0A # E) \<lparr>users = users b, expenses = []\<rparr> =
           (Success, b)"
    unfolding E_def using load_expenses_text [OF es, of "[]" "users b" "[]"] by simp
  show ?thesis unfolding shape load_def using 1 by (simp add: 2 3 4 5 6 7)
qed

lemma rne_near:
  assumes "\<bar>z - of_int m\<bar> < 1 / 2"
  shows "rne z = m"
proof -
  have "\<bar>(of_int (rne z) :: real) - of_int m\<bar> < 1" using rne_error [of z] assms by linarith
  then have "\<bar>(of_int (rne z - m) :: real)\<bar> < 1" by simp
  then have "\<bar>rne z - m\<bar> < 1" by linarith
  then show ?thesis by simp
qed

lemma two_decimals_read_back:
  assumes "\<bar>n\<bar> \<le> 100 * 2 ^ 45"
  shows "reads_back binary64 (binary64 (of_int n / 100))"
proof -
  define y where "y = (of_int n :: real) / 100"
  define x where "x = binary64 y"
  from assms have "(of_int \<bar>n\<bar> :: real) \<le> of_int (100 * 2 ^ 45)"
    by (simp only: of_int_le_iff)
  then have "\<bar>of_int n :: real\<bar> \<le> 100 * 2 ^ 45" by simp
  then have ylim: "\<bar>y\<bar> \<le> 2 ^ 45" by (simp add: y_def)
  then have "\<bar>y\<bar> \<le> pow2 45" by (simp add: pow2_def)
  from binary64_error [OF this] have "\<bar>x - y\<bar> \<le> pow2 (- 8)" by (simp add: x_def)
  then have err: "\<bar>x - y\<bar> \<le> 1 / 256" by (simp add: pow2_def)
  have pos: "0 \<le> x" if "0 \<le> y" unfolding x_def using that by (rule binary64_nonneg)
  have neg: "x \<le> 0" if "y \<le> 0"
  proof -
    from that have "0 \<le> binary64 (- y)" by (intro binary64_nonneg) simp
    then show ?thesis by (simp add: x_def binary64_minus)
  qed
  have n: "(of_int \<bar>n\<bar> :: real) = 100 * \<bar>y\<bar>" by (simp add: y_def)
  have "\<bar>\<bar>x\<bar> - \<bar>y\<bar>\<bar> \<le> 1 / 256" using err by linarith
  then have "\<bar>\<bar>x\<bar> * 100 - of_int \<bar>n\<bar>\<bar> < 1 / 2" unfolding n by linarith
  then have h: "rne (\<bar>x\<bar> * 100) = \<bar>n\<bar>" by (rule rne_near)
  have m: "(of_int \<bar>n\<bar> :: real) / 100 = \<bar>y\<bar>" using n by simp
  have fin: "\<not> overflows \<bar>y\<bar>" using ylim by (simp add: no_overflow)
  have same: "binary64 (if x < 0 then - \<bar>y\<bar> else \<bar>y\<bar>) = x"
  proof (cases "x < 0")
    case True
    with pos have "y < 0" by fastforce
    with True show ?thesis by (simp add: x_def)
  next
    case False
    show ?thesis
    proof (cases "0 \<le> y")
      case True
      with False show ?thesis by (simp add: x_def)
    next
      case y: False
      with neg False have "x = 0" by simp
      moreover have "\<bar>y\<bar> = - y" using y by simp
      then have "binary64 \<bar>y\<bar> = - x" by (simp only: binary64_minus x_def)
      ultimately show ?thesis using False by simp
    qed
  qed
  have "reads_back binary64 x" unfolding reads_back_def Let_def h m using fin same by blast
  then show ?thesis by (simp only: x_def y_def)
qed

text \<open>
  Claim C4, as the code has it. \<^verbatim>\<open>save\<close> writes every amount and share with two decimals,
  so a ledger that holds a number with more decimals is read back with other numbers and its
  balances change; and it writes the names as they are, so a payer or participant name with
  white space, or an empty user name, is not read back as one name. For the other ledgers the
  round trip is exact. When the user names are non-empty lines, the payer and participant
  names are non-empty words without white space, and every amount and share is the double
  that its own text with two decimals denotes (\<^const>\<open>reads_back\<close>: for binary64, every double
  nearest to a value with two decimals of magnitude up to \<open>2 ^ 45\<close> is one), \<^verbatim>\<open>save\<close> followed
  by \<^verbatim>\<open>load\<close> into any store succeeds and yields the saved ledger, hence the same mapping of
  \<^verbatim>\<open>computeNet\<close>. The users are a set: the order in which the model writes and reads them
  stands for the order in which \<^verbatim>\<open>save\<close> iterates over it.
\<close>

theorem save_load_roundtrip:
  assumes "storable rnd b"
  shows "save b True = (Success, Some (save_text b)) \<and>
         load rnd b0 (Some (save_text b)) = Some (Success, b) \<and>
         map_option (\<lambda>r. computeNet rnd (snd r)) (load rnd b0 (Some (save_text b))) =
           Some (computeNet rnd b)"
  using load_save_text [OF assms, of b0] by (simp add: save_def)

lemma storable_split: "storable binary64 book_split"
  by (simp add: book_split_def example_books model_eval stod_eval fp_eval storable_def
      storable_expense_def storable_share_def word_def line_def reads_back_def sorted_keys_def)

theorem save_load_roundtrip_witness:
  "storable binary64 book_split \<and>
   save book_split True = (Success, Some (save_text book_split)) \<and>
   load binary64 \<lparr>users = [], expenses = []\<rparr> (Some (save_text book_split)) = Some (Success, book_split) \<and>
   map_option (\<lambda>r. computeNet binary64 (snd r))
       (load binary64 \<lparr>users = [], expenses = []\<rparr> (Some (save_text book_split))) =
     Some (computeNet binary64 book_split)"
  using save_load_roundtrip [OF storable_split, of "\<lparr>users = [], expenses = []\<rparr>"] storable_split
  by simp

lemma book_thirds_eval:
  "book_thirds = \<lparr>users = [''A'', ''B'', ''C''],
     expenses = [\<lparr>payer = ''A'', amount = 10,
       shares = [(''A'', 7505999378950827 / 2251799813685248), (''B'', 7505999378950827 / 2251799813685248),
                 (''C'', 7505999378950827 / 2251799813685248)]\<rparr>]\<rparr>"
  by (simp add: example_books book_thirds_def fp_eval model_eval)

lemma save_thirds:
  "save_text book_thirds =
     ''USERS 3\<newline>A\<newline>B\<newline>C\<newline>EXPENSES 1\<newline>PAYER A AMT 10.00\<newline>SHARES 3\<newline>A 3.33\<newline>B 3.33\<newline>C 3.33\<newline>''"
  by (simp add: book_thirds_eval text_eval fp_eval)

lemma load_thirds:
  "load binary64 \<lparr>users = [], expenses = []\<rparr> (Some (save_text book_thirds)) =
    Some (Success, \<lparr>users = [''A'', ''B'', ''C''],
      expenses = [\<lparr>payer = ''A'', amount = 10,
        shares = [(''A'', 1874623344892969 / 562949953421312), (''B'', 1874623344892969 / 562949953421312),
                  (''C'', 1874623344892969 / 562949953421312)]\<rparr>]\<rparr>)"
  by (simp add: save_thirds) (simp add: load_eval stod_eval fp_eval)


lemma net_thirds:
  "computeNet binary64 book_thirds =
     [(''A'', 3752999689475413 / 562949953421312), (''B'', - (7505999378950827 / 2251799813685248)),
      (''C'', - (7505999378950827 / 2251799813685248))]"
  by (simp add: book_thirds_eval fp_eval model_eval)

lemma net_thirds_loaded:
  "computeNet binary64 \<lparr>users = [''A'', ''B'', ''C''],
      expenses = [\<lparr>payer = ''A'', amount = 10,
        shares = [(''A'', 1874623344892969 / 562949953421312), (''B'', 1874623344892969 / 562949953421312),
                  (''C'', 1874623344892969 / 562949953421312)]\<rparr>]\<rparr> =
     [(''A'', 3754876189320151 / 562949953421312), (''B'', - (1874623344892969 / 562949953421312)),
      (''C'', - (1874623344892969 / 562949953421312))]"
  by (simp add: fp_eval model_eval)

lemma book_spaced_eval:
  "book_spaced = \<lparr>users = [''A B''],
     expenses = [\<lparr>payer = ''A B'', amount = 10, shares = [(''A B'', 10)]\<rparr>]\<rparr>"
  by (simp add: book_spaced_def fp_eval model_eval)

lemma save_spaced:
  "save_text book_spaced =
     ''USERS 1\<newline>A B\<newline>EXPENSES 1\<newline>PAYER A B AMT 10.00\<newline>SHARES 1\<newline>A B 10.00\<newline>''"
  by (simp add: book_spaced_eval text_eval fp_eval)

lemma load_spaced:
  "load binary64 \<lparr>users = [], expenses = []\<rparr> (Some (save_text book_spaced)) =
     Some (Failure Corrupt_expense_header, \<lparr>users = [''A B''], expenses = []\<rparr>)"
  by (simp add: save_spaced) (simp add: load_eval stod_eval fp_eval)

theorem roundtrip_counterexample:
  "save book_thirds True = (Success, Some (save_text book_thirds)) \<and>
   save_text book_thirds =
     ''USERS 3\<newline>A\<newline>B\<newline>C\<newline>EXPENSES 1\<newline>PAYER A AMT 10.00\<newline>SHARES 3\<newline>A 3.33\<newline>B 3.33\<newline>C 3.33\<newline>'' \<and>
   load binary64 \<lparr>users = [], expenses = []\<rparr> (Some (save_text book_thirds)) =
     Some (Success, \<lparr>users = [''A'', ''B'', ''C''],
       expenses = [\<lparr>payer = ''A'', amount = 10,
         shares = [(''A'', 1874623344892969 / 562949953421312), (''B'', 1874623344892969 / 562949953421312),
                   (''C'', 1874623344892969 / 562949953421312)]\<rparr>]\<rparr>) \<and>
   computeNet binary64 book_thirds =
     [(''A'', 3752999689475413 / 562949953421312), (''B'', - (7505999378950827 / 2251799813685248)),
      (''C'', - (7505999378950827 / 2251799813685248))] \<and>
   computeNet binary64 \<lparr>users = [''A'', ''B'', ''C''],
      expenses = [\<lparr>payer = ''A'', amount = 10,
        shares = [(''A'', 1874623344892969 / 562949953421312), (''B'', 1874623344892969 / 562949953421312),
                  (''C'', 1874623344892969 / 562949953421312)]\<rparr>]\<rparr> =
     [(''A'', 3754876189320151 / 562949953421312), (''B'', - (1874623344892969 / 562949953421312)),
      (''C'', - (1874623344892969 / 562949953421312))] \<and>
   computeNet binary64 \<lparr>users = [''A'', ''B'', ''C''],
      expenses = [\<lparr>payer = ''A'', amount = 10,
        shares = [(''A'', 1874623344892969 / 562949953421312), (''B'', 1874623344892969 / 562949953421312),
                  (''C'', 1874623344892969 / 562949953421312)]\<rparr>]\<rparr>
     \<noteq> computeNet binary64 book_thirds \<and>
   book_spaced = \<lparr>users = [''A B''],
     expenses = [\<lparr>payer = ''A B'', amount = 10, shares = [(''A B'', 10)]\<rparr>]\<rparr> \<and>
   save_text book_spaced =
     ''USERS 1\<newline>A B\<newline>EXPENSES 1\<newline>PAYER A B AMT 10.00\<newline>SHARES 1\<newline>A B 10.00\<newline>'' \<and>
   load binary64 \<lparr>users = [], expenses = []\<rparr> (Some (save_text book_spaced)) =
     Some (Failure Corrupt_expense_header, \<lparr>users = [''A B''], expenses = []\<rparr>)"
  by (simp add: load_thirds net_thirds net_thirds_loaded load_spaced save_def)
    (simp add: save_thirds save_spaced, simp add: book_spaced_eval)


subsection \<open>Order of insertion\<close>

lemma map_of_val:
  "map_of m k = (if k \<in> fst ` set m then Some (val m k) else None)"
  by (cases "map_of m k") (auto simp: val_def map_of_eq_None_iff dest: map_of_SomeD intro: rev_image_eqI)

lemma sorted_keys_eqI:
  assumes "sorted_keys m" and "sorted_keys m'"
    and "fst ` set m = fst ` set m'" and "\<And>k. val m k = val m' k"
  shows "m = m'"
proof (rule sorted_keys_unique [OF assms(1,2)])
  show "map_of m = map_of m'"
    by (rule ext) (simp add: map_of_val assms(3,4))
qed

lemma keys_fold_shares:
  "fst ` set (fold (\<lambda>(k, s). map_modify (f s) k) sh m) = fst ` set m \<union> fst ` set sh"
proof (induction sh arbitrary: m)
  case Nil
  show ?case by simp
next
  case (Cons x sh)
  obtain k s where x: "x = (k, s)" by (cases x)
  show ?case unfolding x by (simp add: Cons.IH keys_map_modify)
qed

lemma keys_add_expense:
  "fst ` set (add_expense rnd e m) = fst ` set m \<union> insert (payer e) (fst ` set (shares e))"
  using keys_fold_shares [of "\<lambda>s v. rnd (v - s)" "shares e"]
  by (simp add: add_expense_def keys_map_modify)

lemma keys_fold_add_expense:
  "fst ` set (fold (add_expense rnd) es m) =
   fst ` set m \<union> (\<Union>e \<in> set es. insert (payer e) (fst ` set (shares e)))"
  by (induction es arbitrary: m) (auto simp: keys_add_expense)

lemma val_fold_shares:
  "sorted_keys m \<Longrightarrow>
   val (fold (\<lambda>(k, s). map_modify (\<lambda>v. v - s) k) sh m) k =
   val m k - sum_list (map snd (filter (\<lambda>(k', s). k' = k) sh))"
proof (induction sh arbitrary: m)
  case Nil
  show ?case by simp
next
  case (Cons x sh)
  obtain k' s where x: "x = (k', s)" by (cases x)
  have s: "sorted_keys (map_modify (\<lambda>v. v - s) k' m)" using Cons.prems by (rule sorted_map_modify)
  show ?case unfolding x using Cons.IH [OF s] Cons.prems
    by (simp add: val_map_modify)
qed

lemma val_add_expense:
  assumes "sorted_keys m"
  shows "val (add_expense exact e m) k = val m k + contribution e k"
proof -
  have s: "sorted_keys (map_modify (\<lambda>v. v + amount e) (payer e) m)"
    using assms by (rule sorted_map_modify)
  show ?thesis
    using assms by (simp add: add_expense_def exact_def val_fold_shares [OF s] val_map_modify contribution_def)
qed

lemma val_fold_add_expense:
  "sorted_keys m \<Longrightarrow>
   val (fold (add_expense exact) es m) k = val m k + (\<Sum>e\<leftarrow>es. contribution e k)"
proof (induction es arbitrary: m)
  case Nil
  show ?case by simp
next
  case (Cons e es)
  have "sorted_keys (add_expense exact e m)" using Cons.prems by (rule sorted_add_expense)
  from Cons.IH [OF this] Cons.prems show ?case by (simp add: val_add_expense)
qed

lemma sum_list_mset_cong:
  fixes f :: "'a \<Rightarrow> real"
  assumes "mset xs = mset ys"
  shows "(\<Sum>x\<leftarrow>xs. f x) = (\<Sum>x\<leftarrow>ys. f x)"
proof -
  have "(\<Sum>x\<leftarrow>xs. f x) = sum_mset (image_mset f (mset xs))"
    by (simp add: sum_mset_sum_list [symmetric] del: sum_mset_sum_list)
  also have "\<dots> = sum_mset (image_mset f (mset ys))" using assms by simp
  also have "\<dots> = (\<Sum>x\<leftarrow>ys. f x)"
    by (simp add: sum_mset_sum_list [symmetric] del: sum_mset_sum_list)
  finally show ?thesis .
qed

text \<open>
  Claim C6, as the code has it. The set of users in the result of \<^verbatim>\<open>computeNet\<close> does not
  depend on the order in which a fixed multiset of expenses was inserted, whatever the
  rounding; and in exact arithmetic the whole mapping does not depend on it. With the
  rounding of doubles the sums can differ in their last bits.
\<close>

theorem computeNet_order:
  assumes "mset es = mset es'"
  shows "map fst (computeNet rnd \<lparr>users = us, expenses = es\<rparr>) =
         map fst (computeNet rnd \<lparr>users = us, expenses = es'\<rparr>) \<and>
         computeNet exact \<lparr>users = us, expenses = es\<rparr> =
         computeNet exact \<lparr>users = us, expenses = es'\<rparr>"
proof
  let ?init = "fold (\<lambda>u. map_modify (\<lambda>_. 0) u) us []"
  have si: "sorted_keys ?init"
    using sorted_fold_modify [of "[]" "\<lambda>u _. 0" "\<lambda>u. u" us] by (simp add: sorted_keys_Nil)
  have se: "set es = set es'" using assms by (rule mset_eq_setD)
  have keys: "fst ` set (fold (add_expense r) es ?init) = fst ` set (fold (add_expense r) es' ?init)"
    for r by (simp add: keys_fold_add_expense se)
  show "map fst (computeNet rnd \<lparr>users = us, expenses = es\<rparr>) =
        map fst (computeNet rnd \<lparr>users = us, expenses = es'\<rparr>)"
  proof -
    have s1: "sorted_keys (fold (add_expense rnd) es ?init)"
      and s2: "sorted_keys (fold (add_expense rnd) es' ?init)"
      using si by (simp_all add: sorted_fold_add_expense)
    have "map fst (fold (add_expense rnd) es ?init) = map fst (fold (add_expense rnd) es' ?init)"
    proof (rule sorted_distinct_set_unique)
      show "sorted (map fst (fold (add_expense rnd) es ?init))"
        "sorted (map fst (fold (add_expense rnd) es' ?init))"
        using s1 s2 by (simp_all add: sorted_keys_def strict_sorted_iff)
      show "distinct (map fst (fold (add_expense rnd) es ?init))"
        "distinct (map fst (fold (add_expense rnd) es' ?init))"
        using s1 s2 by (simp_all add: sorted_keys_distinct)
      show "set (map fst (fold (add_expense rnd) es ?init)) =
            set (map fst (fold (add_expense rnd) es' ?init))"
        using keys [of rnd] by simp
    qed
    then show ?thesis by (simp add: computeNet_def keys_clamp_noise)
  qed
  show "computeNet exact \<lparr>users = us, expenses = es\<rparr> =
        computeNet exact \<lparr>users = us, expenses = es'\<rparr>"
  proof -
    have "fold (add_expense exact) es ?init = fold (add_expense exact) es' ?init"
    proof (rule sorted_keys_eqI)
      show "sorted_keys (fold (add_expense exact) es ?init)"
        "sorted_keys (fold (add_expense exact) es' ?init)"
        using si by (simp_all add: sorted_fold_add_expense)
      show "fst ` set (fold (add_expense exact) es ?init) =
            fst ` set (fold (add_expense exact) es' ?init)"
        by (rule keys)
      show "val (fold (add_expense exact) es ?init) k = val (fold (add_expense exact) es' ?init) k"
        for k
        using sum_list_mset_cong [OF assms, of "\<lambda>e. contribution e k"]
        by (simp add: val_fold_add_expense [OF si])
    qed
    then show ?thesis by (simp add: computeNet_def)
  qed
qed

theorem computeNet_order_witness:
  "mset (expenses book_123) = mset (expenses book_321) \<and>
   map fst (computeNet binary64 \<lparr>users = users book_AB, expenses = expenses book_123\<rparr>) =
   map fst (computeNet binary64 \<lparr>users = users book_AB, expenses = expenses book_321\<rparr>) \<and>
   computeNet exact \<lparr>users = users book_AB, expenses = expenses book_123\<rparr> =
   computeNet exact \<lparr>users = users book_AB, expenses = expenses book_321\<rparr>"
proof -
  have m: "mset (expenses book_123) = mset (expenses book_321)"
    using books_123_321 by simp
  show ?thesis by (rule conjI [OF m computeNet_order [OF m]])
qed

end
